theory Spec2Isabelle
  imports Main "HOL-Library.Sublist" "HOL-Library.Code_Target_Nat"
begin

section \<open>JavaScript string primitives used by the analyzer\<close>

text \<open>
  A JavaScript string is a sequence of UTF-16 code units. It is modelled as a list of
  natural numbers, one per code unit, so every string that the analyzer can receive is
  a value of the model. \<open>cu\<close> is the code unit of an ASCII character, and \<open>js\<close> the
  string of an ASCII literal.
\<close>

type_synonym js_string = "nat list"

abbreviation cu :: "char \<Rightarrow> nat" where
  "cu \<equiv> of_char"

definition js :: "string \<Rightarrow> js_string" where
  "js s = map of_char s"

text \<open>\<open>\s\<close> and \<open>String.prototype.trim\<close>: the white space and the line terminators of
  ECMAScript, which are U+0009 to U+000D, U+0020, U+00A0, U+1680, U+2000 to U+200A,
  U+2028, U+2029, U+202F, U+205F, U+3000 and U+FEFF.\<close>

definition is_space :: "nat \<Rightarrow> bool" where
  "is_space c =
     (c \<in> set [0x09, 0x0A, 0x0B, 0x0C, 0x0D, 0x20, 0xA0, 0x1680, 0x2028, 0x2029, 0x202F,
               0x205F, 0x3000, 0xFEFF] \<or>
      (0x2000 \<le> c \<and> c \<le> 0x200A))"

text \<open>The character class \<open>[A-Za-z0-9_]\<close>, which is also \<open>\w\<close>: none of the regular
  expressions has the \<open>u\<close> flag, so the \<open>i\<close> flag adds no code unit outside ASCII to it.\<close>

definition is_word :: "nat \<Rightarrow> bool" where
  "is_word c =
     ((cu CHR ''A'' \<le> c \<and> c \<le> cu CHR ''Z'') \<or> (cu CHR ''a'' \<le> c \<and> c \<le> cu CHR ''z'') \<or>
      (cu CHR ''0'' \<le> c \<and> c \<le> cu CHR ''9'') \<or> c = cu CHR ''_'')"

text \<open>
  \<open>toUpperCase\<close>. The analyzer applies it to the text of a matched layer token and to a
  word that passed \<open>/^[A-Za-z0-9_]+$/\<close>, that is to ASCII letters, digits and
  underscores only, where it turns \<open>a\<close> to \<open>z\<close> into \<open>A\<close> to \<open>Z\<close> and keeps the rest.
  The same map is the comparison of the \<open>i\<close> flag against the ASCII letters of a
  pattern: without the \<open>u\<close> flag the canonical form of a code unit outside ASCII is
  never an ASCII letter, so such a unit matches no letter of a pattern.
\<close>

definition upper_unit :: "nat \<Rightarrow> nat" where
  "upper_unit c = (if cu CHR ''a'' \<le> c \<and> c \<le> cu CHR ''z'' then c - 32 else c)"

definition toUpperCase :: "js_string \<Rightarrow> js_string" where
  "toUpperCase s = map upper_unit s"

text \<open>
  \<open>toLowerCase\<close>. \<open>A\<close> to \<open>Z\<close> become \<open>a\<close> to \<open>z\<close>; of the code units outside ASCII only
  two have ASCII letters in their lower case: the Kelvin sign U+212A becomes \<open>k\<close>, and
  U+0130 becomes \<open>i\<close> followed by U+0307. Every other unit outside ASCII has a lower
  case outside ASCII and is kept as it is: the analyzer only tests the lower-cased
  text for ASCII markers (\<open>startsWith\<close>, \<open>includes\<close>) and never returns it, so only the
  places of the ASCII units matter.
\<close>

definition lower_unit :: "nat \<Rightarrow> nat list" where
  "lower_unit c =
     (if cu CHR ''A'' \<le> c \<and> c \<le> cu CHR ''Z'' then [c + 32]
      else if c = 0x212A then [cu CHR ''k'']
      else if c = 0x0130 then [cu CHR ''i'', 0x0307]
      else [c])"

definition toLowerCase :: "js_string \<Rightarrow> js_string" where
  "toLowerCase s = concat (map lower_unit s)"

definition trim :: "js_string \<Rightarrow> js_string" where
  "trim s = rev (dropWhile is_space (rev (dropWhile is_space s)))"

text \<open>\<open>s.split(sep)\<close> for a separator of one code unit: the pieces between the
  separators, empty pieces included; the empty string gives one empty piece.\<close>

fun split_on :: "nat \<Rightarrow> js_string \<Rightarrow> js_string list" where
  "split_on sep [] = [[]]"
| "split_on sep (c # cs) =
     (if c = sep then [] # split_on sep cs
      else (case split_on sep cs of [] \<Rightarrow> [[c]] | w # ws \<Rightarrow> (c # w) # ws))"

definition startsWith :: "js_string \<Rightarrow> js_string \<Rightarrow> bool" where
  "startsWith s p = prefix p s"

text \<open>\<open>s.includes(sub)\<close>: \<open>sub\<close> occurs in \<open>s\<close> as a contiguous substring.\<close>

fun str_includes :: "js_string \<Rightarrow> js_string \<Rightarrow> bool" where
  "str_includes [] sub = (sub = [])"
| "str_includes (c # cs) sub = (prefix sub (c # cs) \<or> str_includes cs sub)"

text \<open>\<open>xs.findIndex(P)\<close>, with \<open>None\<close> for \<open>-1\<close>.\<close>

fun findIndex :: "('a \<Rightarrow> bool) \<Rightarrow> 'a list \<Rightarrow> nat option" where
  "findIndex P [] = None"
| "findIndex P (x # xs) = (if P x then Some 0 else map_option Suc (findIndex P xs))"

section \<open>Data model (types.ts and intelligentMappingAnalyzer.ts)\<close>

datatype ProductLayer = ODP | FDP | CDP

text \<open>The string value of each member of the enum \<open>ProductLayer\<close>.\<close>

fun layer_label :: "ProductLayer \<Rightarrow> js_string" where
  "layer_label ODP = js ''ODP (Origination)''"
| "layer_label FDP = js ''FDP (Foundational)''"
| "layer_label CDP = js ''CDP (Common/Consumption)''"

text \<open>Optional members (\<open>transformation?\<close>, \<open>sourceLayer?\<close>, \<open>targetLayer?\<close>) are options.\<close>

record EnhancedMappingRow =
  sourceTable :: js_string
  sourceField :: js_string
  targetTable :: js_string
  targetField :: js_string
  dataType :: js_string
  transformation :: "js_string option"
  sourceLayer :: "ProductLayer option"
  targetLayer :: "ProductLayer option"

text \<open>\<open>ParsedTableFragment\<close> \<open>{name, layer, fields}\<close>; the members carry the prefix
  \<open>frag_\<close> since \<open>name\<close> and \<open>layer\<close> are members of other interfaces too.\<close>

record ParsedTableFragment =
  frag_name :: js_string
  frag_layer :: ProductLayer
  frag_fields :: "js_string list"

text \<open>\<open>FieldMapping\<close>: the analyzer sets \<open>sourceField\<close>, \<open>targetField\<close> and
  \<open>transformation\<close> only.\<close>

record FieldMapping =
  map_sourceField :: js_string
  map_targetField :: js_string
  map_transformation :: js_string

text \<open>\<open>SourceAsset\<close> \<open>{name, mappings}\<close>.\<close>

record SourceAsset =
  src_name :: js_string
  mappings :: "FieldMapping list"

text \<open>\<open>TableMetadata\<close>, with the members the analyzer sets: \<open>id\<close>, \<open>layer\<close>,
  \<open>targetName\<close>, \<open>columns\<close>, \<open>primaryKeys\<close>, \<open>sources\<close>; \<open>checkTypes\<close> is always the
  empty array and is left out, as are the optional members that are never assigned.\<close>

record TableMetadata =
  tbl_id :: js_string
  tbl_layer :: ProductLayer
  targetName :: js_string
  columns :: "js_string list"
  primaryKeys :: "js_string list"
  sources :: "SourceAsset list"

record Summary =
  odpTables :: nat
  fdpTables :: nat
  cdpTables :: nat
  totalFields :: nat

text \<open>A JavaScript \<open>Map\<close> with string keys is an association list in insertion order.\<close>

type_synonym 'v js_map = "(js_string \<times> 'v) list"

record EnhancedMappingResult =
  tables :: "TableMetadata list"
  lineage :: "js_string list js_map"
  summary :: Summary

datatype error = NoValidMappingData

text \<open>\<open>m.has(k)\<close>, \<open>m.set(k, v)\<close> (a key that is present keeps its place), and the
  in-place mutation of the object that \<open>m.get(k)\<close> returns.\<close>

definition map_has :: "'v js_map \<Rightarrow> js_string \<Rightarrow> bool" where
  "map_has m k = (map_of m k \<noteq> None)"

fun map_set :: "'v js_map \<Rightarrow> js_string \<Rightarrow> 'v \<Rightarrow> 'v js_map" where
  "map_set [] k v = [(k, v)]"
| "map_set ((k', v') # m) k v =
     (if k' = k then (k, v) # m else (k', v') # map_set m k v)"

definition map_modify :: "'v js_map \<Rightarrow> js_string \<Rightarrow> ('v \<Rightarrow> 'v) \<Rightarrow> 'v js_map" where
  "map_modify m k f = map (\<lambda>(k', v). if k' = k then (k', f v) else (k', v)) m"

section \<open>detectLayer\<close>

definition detectLayer :: "js_string \<Rightarrow> ProductLayer" where
  "detectLayer tableName =
     (let lower = toLowerCase tableName in
      if startsWith lower (js ''cdp'') \<or> str_includes lower (js ''_cdp'') \<or> str_includes lower (js ''consumption'')
      then CDP
      else if startsWith lower (js ''fdp'') \<or> str_includes lower (js ''_fdp'') \<or> str_includes lower (js ''foundation'')
      then FDP
      else ODP)"

section \<open>The regular expressions of parseMarkdownFormat\<close>

definition layer_tokens :: "js_string list" where
  "layer_tokens = [js ''ODP'', js ''FDP'', js ''CDP'', js ''RAW'', js ''FOUNDATION'', js ''CONSUMPTION'']"

text \<open>The group \<open>(ODP|FDP|CDP|RAW|FOUNDATION|CONSUMPTION)\<close> under the \<open>i\<close> flag, matched at
  the start of \<open>s\<close>: the alternatives are tried in order, and the result is the matched
  text with the rest of \<open>s\<close>. No alternative is a prefix of another, so at most one of
  them matches and backtracking into the group finds nothing new (lemma
  \<open>token_match_unique\<close>).\<close>

fun match_token :: "js_string list \<Rightarrow> js_string \<Rightarrow> (js_string \<times> js_string) option" where
  "match_token [] s = None"
| "match_token (t # ts) s =
     (if toUpperCase (take (length t) s) = t then Some (take (length t) s, drop (length t) s)
      else match_token ts s)"

text \<open>\<open>(ODP|...)\.([A-Za-z0-9_]+)\b\<close> matched at the start of \<open>s\<close>: the layer token, a
  dot, and the longest run of word characters, which must not be empty. The closing
  \<open>\b\<close> holds after the longest run (the next character is no word character) and after
  no shorter one (lemma \<open>dot_here_backtracking\<close>). The result is groups 1 and 2 and the
  length of the match.\<close>

definition dot_here :: "js_string \<Rightarrow> (js_string \<times> js_string \<times> nat) option" where
  "dot_here s =
     (case match_token layer_tokens s of
        None \<Rightarrow> None
      | Some (tok, r) \<Rightarrow>
          (case r of
             [] \<Rightarrow> None
           | d # r' \<Rightarrow>
               (let nm = takeWhile is_word r' in
                if d = cu CHR ''.'' \<and> nm \<noteq> [] then Some (tok, nm, length tok + 1 + length nm)
                else None)))"

text \<open>\<open>line.matchAll(/\b(ODP|...)\.([A-Za-z0-9_]+)\b/gi)\<close>: the matches from left to right.
  \<open>prev\<close> tells whether the character before the current position is a word character
  (the opening \<open>\b\<close> stands before a letter, so it holds iff that is not the case);
  \<open>skip\<close> counts the characters of the last match that are still to be passed, since
  the search resumes where the last match ended.\<close>

fun dot_scan :: "bool \<Rightarrow> nat \<Rightarrow> js_string \<Rightarrow> (js_string \<times> js_string) list" where
  "dot_scan prev skip [] = []"
| "dot_scan prev (Suc k) (c # cs) = dot_scan (is_word c) k cs"
| "dot_scan prev 0 (c # cs) =
     (if prev then dot_scan (is_word c) 0 cs
      else (case dot_here (c # cs) of
              None \<Rightarrow> dot_scan (is_word c) 0 cs
            | Some (tok, nm, n) \<Rightarrow> (tok, nm) # dot_scan (is_word c) (n - 1) cs))"

definition dotNotationMatches :: "js_string \<Rightarrow> (js_string \<times> js_string) list" where
  "dotNotationMatches line = dot_scan False 0 line"

text \<open>The class \<open>[:\s_-]\<close>.\<close>

definition is_header_sep :: "nat \<Rightarrow> bool" where
  "is_header_sep c = (c = cu CHR '':'' \<or> is_space c \<or> c = cu CHR ''_'' \<or> c = cu CHR ''-'')"

text \<open>\<open>[:\s_-]+(\w+)\<close> matched at the start of \<open>s\<close>, returning group 2. The underscore is
  in both classes, so the backtracking matters: the separator run is tried longest
  first (the recursive call), and where that fails the run ends after \<open>c\<close> and \<open>\w+\<close>
  takes the longest run of word characters from there (lemma
  \<open>standardMatch_backtracking\<close>).\<close>

fun header_tail :: "js_string \<Rightarrow> js_string option" where
  "header_tail [] = None"
| "header_tail (c # cs) =
     (if is_header_sep c then
        (case header_tail cs of
           Some w \<Rightarrow> Some w
         | None \<Rightarrow> (let w = takeWhile is_word cs in if w = [] then None else Some w))
      else None)"

text \<open>\<open>line.match(/^(ODP|...)[:\s_-]+(\w+)/i)\<close>: groups 1 and 2.\<close>

definition standardMatch :: "js_string \<Rightarrow> (js_string \<times> js_string) option" where
  "standardMatch line =
     (case match_token layer_tokens line of
        None \<Rightarrow> None
      | Some (tok, r) \<Rightarrow> (case header_tail r of None \<Rightarrow> None | Some nm \<Rightarrow> Some (tok, nm)))"

text \<open>One side of the arrow, \<open>([A-Za-z0-9_]+)\.?([A-Za-z0-9_]*)\<close>, matched greedily at the
  start of \<open>s\<close>: the longest run of word characters (not empty), a dot if one follows,
  and the longest run of word characters after it. The result is the two groups and
  the rest of \<open>s\<close>.\<close>

definition arrow_side :: "js_string \<Rightarrow> (js_string \<times> js_string \<times> js_string) option" where
  "arrow_side s =
     (let p = takeWhile is_word s; r = dropWhile is_word s in
      if p = [] then None
      else (case r of
              [] \<Rightarrow> Some (p, [], [])
            | d # r' \<Rightarrow>
                if d = cu CHR ''.'' then Some (p, takeWhile is_word r', dropWhile is_word r')
                else Some (p, [], r)))"

text \<open>The whole expression
  \<open>([A-Za-z0-9_]+)\.?([A-Za-z0-9_]*)\s*[-=]>\s*([A-Za-z0-9_]+)\.?([A-Za-z0-9_]*)\<close>
  matched at the start of \<open>s\<close>. Every quantifier takes its longest match: where the
  longest match of a group is followed by a failure, a shorter one is followed by a
  word character, a dot or a space in a place where the expression wants the arrow or
  a word character, so backtracking finds no other match (lemma \<open>bt_arrow_greedy\<close>).\<close>

definition arrow_here :: "js_string \<Rightarrow> (js_string \<times> js_string \<times> js_string \<times> js_string) option" where
  "arrow_here s =
     (case arrow_side s of
        None \<Rightarrow> None
      | Some (p1, p2, r) \<Rightarrow>
          (case dropWhile is_space r of
             a # b # r' \<Rightarrow>
               if (a = cu CHR ''-'' \<or> a = cu CHR ''='') \<and> b = cu CHR ''>'' then
                 (case arrow_side (dropWhile is_space r') of
                    None \<Rightarrow> None
                  | Some (p3, p4, r'') \<Rightarrow> Some (p1, p2, p3, p4))
               else None
           | _ \<Rightarrow> None))"

text \<open>\<open>line.match(...)\<close> without anchor: the first position, from the left, where the
  expression matches; groups 1 to 4.\<close>

fun mappingMatch :: "js_string \<Rightarrow> (js_string \<times> js_string \<times> js_string \<times> js_string) option" where
  "mappingMatch [] = None"
| "mappingMatch (c # cs) =
     (case arrow_here (c # cs) of Some m \<Rightarrow> Some m | None \<Rightarrow> mappingMatch cs)"

text \<open>\<open>line.split(/[\s|]+/)\<close>: the pieces between the longest runs of white space and
  pipes; a run at the start or at the end gives an empty piece there.\<close>

definition is_field_sep :: "nat \<Rightarrow> bool" where
  "is_field_sep c = (is_space c \<or> c = cu CHR ''|'')"

function split_fields :: "js_string \<Rightarrow> js_string list" where
  "split_fields [] = [[]]"
| "split_fields (c # cs) =
     (if is_field_sep c then [] # split_fields (dropWhile is_field_sep cs)
      else (case split_fields cs of [] \<Rightarrow> [[c]] | w # ws \<Rightarrow> (c # w) # ws))"
  by pat_completeness auto
termination
  by (relation "measure length") (auto simp: le_imp_less_Suc length_dropWhile_le)

section \<open>parseMarkdownFormat\<close>

text \<open>
  \<open>explicitTables\<close> is the array of the fragment objects, in creation order. The
  fragments are shared, mutable objects: \<open>activeTables\<close> holds references to members of
  \<open>explicitTables\<close>, and rule 4 pushes fields through these references. A reference is
  the index of the fragment in \<open>explicitTables\<close> (fragments are only ever appended, so
  an index names the same object for the rest of the parse).
\<close>

record ParseState =
  rows :: "EnhancedMappingRow list"
  explicitTables :: "ParsedTableFragment list"
  activeTables :: "nat list"

definition init_state :: ParseState where
  "init_state = \<lparr>rows = [], explicitTables = [], activeTables = []\<rparr>"

text \<open>\<open>let layer = ODP; if (['FDP','FOUNDATION'].includes(layerStr)) layer = FDP;
  if (['CDP','CONSUMPTION'].includes(layerStr)) layer = CDP;\<close>\<close>

definition layer_of_token :: "js_string \<Rightarrow> ProductLayer" where
  "layer_of_token layerStr =
     (let layer = ODP;
          layer = (if layerStr \<in> set [js ''FDP'', js ''FOUNDATION''] then FDP else layer);
          layer = (if layerStr \<in> set [js ''CDP'', js ''CONSUMPTION''] then CDP else layer)
      in layer)"

text \<open>\<open>explicitTables.find(t => t.name === tableName && t.layer === layer)\<close>, and the
  push of a fresh fragment where nothing is found; the result is the array and the
  reference to the fragment.\<close>

definition find_or_push ::
  "ParsedTableFragment list \<Rightarrow> js_string \<Rightarrow> ProductLayer \<Rightarrow> ParsedTableFragment list \<times> nat" where
  "find_or_push ets tableName layer =
     (case findIndex (\<lambda>t. frag_name t = tableName \<and> frag_layer t = layer) ets of
        Some i \<Rightarrow> (ets, i)
      | None \<Rightarrow>
          (ets @ [\<lparr>frag_name = tableName, frag_layer = layer, frag_fields = []\<rparr>], length ets))"

text \<open>The loop over the dot-notation matches (rule 1), collecting \<open>newTables\<close>.\<close>

fun dot_headers ::
  "(js_string \<times> js_string) list \<Rightarrow> ParsedTableFragment list \<Rightarrow> nat list \<Rightarrow>
     ParsedTableFragment list \<times> nat list" where
  "dot_headers [] ets newTables = (ets, newTables)"
| "dot_headers ((tok, tableName) # ms) ets newTables =
     (case find_or_push ets tableName (layer_of_token (toUpperCase tok)) of
        (ets', i) \<Rightarrow> dot_headers ms ets' (newTables @ [i]))"

definition reserved_words :: "js_string list" where
  "reserved_words = [js ''ODP'', js ''FDP'', js ''CDP'', js ''ID'', js ''NULL'']"

text \<open>The body shared by the two loops of rule 4, for the fragment referenced by \<open>i\<close>:
  \<open>if (!keywords.includes(word.toUpperCase()) && !targetTable.fields.includes(word))\<close>,
  then \<open>cleanField = word.replace(/[^a-zA-Z0-9_]/g, '')\<close> is pushed if it is longer
  than one character.\<close>

definition add_word :: "ParsedTableFragment list \<Rightarrow> nat \<Rightarrow> js_string \<Rightarrow> ParsedTableFragment list" where
  "add_word ets i word =
     (let targetTable = ets ! i in
      if toUpperCase word \<notin> set reserved_words \<and> word \<notin> set (frag_fields targetTable) then
        (let cleanField = filter is_word word in
         if length cleanField > 1
         then ets[i := targetTable\<lparr>frag_fields := frag_fields targetTable @ [cleanField]\<rparr>]
         else ets)
      else ets)"

text \<open>\<open>line.split(/[\s|]+/).filter(w => w.length > 1 && /^[A-Za-z0-9_]+$/.test(w))\<close>\<close>

definition potentialFields :: "js_string \<Rightarrow> js_string list" where
  "potentialFields line =
     filter (\<lambda>w. length w > 1 \<and> w \<noteq> [] \<and> list_all is_word w) (split_fields line)"

text \<open>Rule 4. With more than one active table and at least as many words as active
  tables, the loop \<open>for (i = 0; i < activeTables.length; i++)\<close> handles
  \<open>potentialFields[i]\<close> and \<open>activeTables[i]\<close>; otherwise every word goes to the last
  active table.\<close>

definition loose_fields :: "ParsedTableFragment list \<Rightarrow> nat list \<Rightarrow> js_string \<Rightarrow> ParsedTableFragment list" where
  "loose_fields ets active line =
     (let words = potentialFields line in
      if length active > 1 \<and> length words \<ge> length active then
        foldl (\<lambda>e i. add_word e (active ! i) (words ! i)) ets [0..<length active]
      else
        foldl (\<lambda>e word. add_word e (last active) word) ets words)"

text \<open>\<open>activeTables[k]?.name || fallback\<close>, for \<open>k\<close> the first or the last index.\<close>

definition name_or :: "ParsedTableFragment list \<Rightarrow> nat option \<Rightarrow> js_string \<Rightarrow> js_string" where
  "name_or ets r fallback =
     (case r of
        None \<Rightarrow> fallback
      | Some i \<Rightarrow> (if frag_name (ets ! i) = [] then fallback else frag_name (ets ! i)))"

definition first_ref :: "nat list \<Rightarrow> nat option" where
  "first_ref active = (case active of [] \<Rightarrow> None | i # _ \<Rightarrow> Some i)"

definition last_ref :: "nat list \<Rightarrow> nat option" where
  "last_ref active = (case rev active of [] \<Rightarrow> None | i # _ \<Rightarrow> Some i)"

text \<open>The row pushed by rule 3 from the four groups of the match.\<close>

definition arrow_row ::
  "ParsedTableFragment list \<Rightarrow> nat list \<Rightarrow> js_string \<times> js_string \<times> js_string \<times> js_string \<Rightarrow> EnhancedMappingRow" where
  "arrow_row ets active m =
     (case m of (p1, p2, p3, p4) \<Rightarrow>
        (let srcT = (if p2 \<noteq> [] then p1 else name_or ets (first_ref active) (js ''Unknown_Source''));
             srcF = (if p2 \<noteq> [] then p2 else p1);
             tgtT = (if p4 \<noteq> [] then p3 else name_or ets (last_ref active) (js ''Unknown_Target''));
             tgtF = (if p4 \<noteq> [] then p4 else p3)
         in \<lparr>sourceTable = srcT, sourceField = srcF, targetTable = tgtT, targetField = tgtF,
             dataType = js ''STRING'', transformation = None,
             sourceLayer = Some (detectLayer srcT), targetLayer = Some (detectLayer tgtT)\<rparr>))"

text \<open>The body of the loop over the lines: the four rules in order, each ending the
  iteration (\<open>continue\<close>) when it fires.\<close>

definition process_line :: "ParseState \<Rightarrow> js_string \<Rightarrow> ParseState" where
  "process_line st line =
     (let ms = dotNotationMatches line in
      if length ms > 0 then
        (case dot_headers ms (explicitTables st) [] of
           (ets, newTables) \<Rightarrow> st\<lparr>explicitTables := ets, activeTables := newTables\<rparr>)
      else
        (case standardMatch line of
           Some (tok, tableName) \<Rightarrow>
             (case find_or_push (explicitTables st) tableName (layer_of_token (toUpperCase tok)) of
                (ets, i) \<Rightarrow> st\<lparr>explicitTables := ets, activeTables := [i]\<rparr>)
         | None \<Rightarrow>
             (case mappingMatch line of
                Some m \<Rightarrow>
                  st\<lparr>rows := rows st @ [arrow_row (explicitTables st) (activeTables st) m]\<rparr>
              | None \<Rightarrow>
                  if length (activeTables st) > 0
                  then st\<lparr>explicitTables := loose_fields (explicitTables st) (activeTables st) line\<rparr>
                  else st)))"

text \<open>\<open>content.split('\n').map(l => l.trim()).filter(l => l && l.length > 1)\<close>\<close>

definition transcript_lines :: "js_string \<Rightarrow> js_string list" where
  "transcript_lines content =
     filter (\<lambda>l. l \<noteq> [] \<and> length l > 1) (map trim (split_on 0x0A content))"

definition parse_state :: "js_string \<Rightarrow> ParseState" where
  "parse_state content = foldl process_line init_state (transcript_lines content)"

definition parseMarkdownFormat :: "js_string \<Rightarrow> EnhancedMappingRow list \<times> ParsedTableFragment list" where
  "parseMarkdownFormat content =
     (let st = parse_state content in (rows st, explicitTables st))"

section \<open>parseCSV\<close>

text \<open>\<open>parts[k] || fallback\<close>: an index past the end gives \<open>undefined\<close>, and the empty
  string is falsy.\<close>

definition part_or :: "js_string list \<Rightarrow> nat \<Rightarrow> 'a \<Rightarrow> (js_string \<Rightarrow> 'a) \<Rightarrow> 'a" where
  "part_or parts k fallback f =
     (if k < length parts \<and> parts ! k \<noteq> [] then f (parts ! k) else fallback)"

text \<open>The body of the loop over the lines of the CSV: \<open>None\<close> where the line is
  skipped (\<open>continue\<close>), the pushed row otherwise.\<close>

definition csv_row :: "js_string \<Rightarrow> EnhancedMappingRow option" where
  "csv_row raw =
     (let line = trim raw in
      if line = [] \<or> startsWith line (js ''#'') \<or> startsWith (toLowerCase line) (js ''source_table'')
      then None
      else
        (let parts = map trim (split_on (cu CHR '','') line) in
         if length parts < 4 then None
         else Some \<lparr>sourceTable = parts ! 0, sourceField = parts ! 1,
                    targetTable = parts ! 2, targetField = parts ! 3,
                    dataType = part_or parts 4 (js ''STRING'') (\<lambda>x. x),
                    transformation = part_or parts 5 None Some,
                    sourceLayer = Some (detectLayer (parts ! 0)),
                    targetLayer = Some (detectLayer (parts ! 2))\<rparr>))"

definition parseCSV :: "js_string \<Rightarrow> EnhancedMappingRow list" where
  "parseCSV content = List.map_filter csv_row (split_on 0x0A (trim content))"

section \<open>generateTables and ensureTableExists\<close>

text \<open>\<open>layer.toLowerCase().split(' ')[0]\<close>\<close>

definition layer_prefix :: "ProductLayer \<Rightarrow> js_string" where
  "layer_prefix layer =
     (case split_on (cu CHR '' '') (toLowerCase (layer_label layer)) of [] \<Rightarrow> [] | w # _ \<Rightarrow> w)"

definition default_columns :: "js_string list" where
  "default_columns = [js ''id'', js ''created_at'', js ''updated_at'']"

text \<open>The object literal of both \<open>tables.set\<close> calls, for the given column list.\<close>

definition new_table :: "js_string \<Rightarrow> ProductLayer \<Rightarrow> js_string list \<Rightarrow> TableMetadata" where
  "new_table tableName layer cols =
     \<lparr>tbl_id = layer_prefix layer @ js ''-'' @ tableName, tbl_layer = layer,
      targetName = tableName, columns = cols, primaryKeys = [js ''id''], sources = []\<rparr>"

definition ensureTableExists ::
  "TableMetadata js_map \<Rightarrow> js_string \<Rightarrow> ProductLayer \<Rightarrow> TableMetadata js_map" where
  "ensureTableExists tbls tableName layer =
     (if \<not> map_has tbls tableName
      then map_set tbls tableName (new_table tableName layer default_columns)
      else tbls)"

text \<open>Phase 1: one \<open>tables.set\<close> per explicit fragment.\<close>

definition seed_tables :: "ParsedTableFragment list \<Rightarrow> TableMetadata js_map" where
  "seed_tables ets =
     foldl (\<lambda>tbls tbl. map_set tbls (frag_name tbl)
              (new_table (frag_name tbl) (frag_layer tbl) (default_columns @ frag_fields tbl)))
       [] ets"

text \<open>\<open>if (!t.columns.includes(f)) t.columns.push(f)\<close>\<close>

definition add_column :: "js_string \<Rightarrow> TableMetadata \<Rightarrow> TableMetadata" where
  "add_column f t = (if f \<notin> set (columns t) then t\<lparr>columns := columns t @ [f]\<rparr> else t)"

text \<open>\<open>if (!sourceEntry.mappings.some(m => m.targetField === row.targetField))
  sourceEntry.mappings.push({...})\<close>\<close>

definition add_field_mapping :: "EnhancedMappingRow \<Rightarrow> SourceAsset \<Rightarrow> SourceAsset" where
  "add_field_mapping row sourceEntry =
     (if targetField row \<notin> map_targetField ` set (mappings sourceEntry) then
        sourceEntry\<lparr>mappings := mappings sourceEntry @
          [\<lparr>map_sourceField = sourceField row, map_targetField = targetField row,
            map_transformation = (case transformation row of None \<Rightarrow> [] | Some x \<Rightarrow> x)\<rparr>]\<rparr>
      else sourceEntry)"

text \<open>The last part of the loop body: \<open>sourceEntry\<close> is the first source of the target
  table with the name of the row's source table, pushed where there is none; the
  mapping is then added to that entry.\<close>

definition add_mapping :: "EnhancedMappingRow \<Rightarrow> TableMetadata \<Rightarrow> TableMetadata" where
  "add_mapping row t =
     (case findIndex (\<lambda>s. src_name s = sourceTable row) (sources t) of
        Some i \<Rightarrow> t\<lparr>sources := (sources t)[i := add_field_mapping row (sources t ! i)]\<rparr>
      | None \<Rightarrow>
          t\<lparr>sources := sources t @
               [add_field_mapping row \<lparr>src_name = sourceTable row, mappings = []\<rparr>]\<rparr>)"

text \<open>\<open>row.targetLayer || ProductLayer.ODP\<close>\<close>

definition layer_or_odp :: "ProductLayer option \<Rightarrow> ProductLayer" where
  "layer_or_odp l = (case l of None \<Rightarrow> ODP | Some x \<Rightarrow> x)"

text \<open>Phase 2, the body of the loop over the rows. \<open>targetTable\<close> and \<open>sourceTable\<close> are
  the objects stored under the two names (one object when the names are equal), and
  every mutation goes to the object under its key.\<close>

definition add_row :: "TableMetadata js_map \<Rightarrow> EnhancedMappingRow \<Rightarrow> TableMetadata js_map" where
  "add_row tbls row =
     (let t1 = ensureTableExists tbls (targetTable row) (layer_or_odp (targetLayer row));
          t2 = map_modify t1 (targetTable row) (add_column (targetField row));
          t3 = ensureTableExists t2 (sourceTable row) (layer_or_odp (sourceLayer row));
          t4 = map_modify t3 (sourceTable row) (add_column (sourceField row))
      in map_modify t4 (targetTable row) (add_mapping row))"

definition generateTables ::
  "EnhancedMappingRow list \<Rightarrow> ParsedTableFragment list \<Rightarrow> TableMetadata js_map" where
  "generateTables rs ets = foldl add_row (seed_tables ets) rs"

section \<open>analyze\<close>

definition is_transcript :: "js_string \<Rightarrow> bool" where
  "is_transcript content =
     (str_includes content (js ''ODP:'') \<or> str_includes content (js ''FDP:'') \<or>
      str_includes content (js ''CDP:'') \<or> str_includes content (js ''->''))"

text \<open>The first statement of \<open>analyze\<close>: the rows and the explicit fragments of the
  format that was detected.\<close>

definition extract_phase :: "js_string \<Rightarrow> EnhancedMappingRow list \<times> ParsedTableFragment list" where
  "extract_phase content =
     (if is_transcript content then parseMarkdownFormat content else (parseCSV content, []))"

definition build_result :: "EnhancedMappingRow list \<Rightarrow> TableMetadata js_map \<Rightarrow> EnhancedMappingResult" where
  "build_result rs tbls =
     (let tableArray = map snd tbls in
      \<lparr>tables = tableArray,
       lineage = foldl (\<lambda>m t. map_set m (targetName t) (map src_name (sources t))) [] tableArray,
       summary = \<lparr>odpTables = length (filter (\<lambda>t. tbl_layer t = ODP) tableArray),
                  fdpTables = length (filter (\<lambda>t. tbl_layer t = FDP) tableArray),
                  cdpTables = length (filter (\<lambda>t. tbl_layer t = CDP) tableArray),
                  totalFields = length rs\<rparr>\<rparr>)"

definition analyze :: "js_string \<Rightarrow> error + EnhancedMappingResult" where
  "analyze content =
     (case extract_phase content of
        (rs, ets) \<Rightarrow>
          if length rs = 0 \<and> length ets = 0 then Inl NoValidMappingData
          else Inr (build_result rs (generateTables rs ets)))"

section \<open>Backtracking semantics of the regular expressions\<close>

text \<open>
  The matchers above take the longest match of every quantifier. A JavaScript regular
  expression backtracks: a greedy quantifier first takes as much as it can and gives
  characters back one by one while the rest of the expression fails. The combinators
  below are that semantics, with the rest of the expression as a continuation \<open>k\<close>
  that receives the text of the group and the remaining input; the first success in
  the order of the backtracking is the match. The expressions written with them are
  proved equal to the matchers above.

  \<open>star P k acc s\<close> is \<open>[P]*\<close> followed by \<open>k\<close>, with \<open>acc\<close> the characters taken so far.
\<close>

fun star :: "(nat \<Rightarrow> bool) \<Rightarrow> (js_string \<Rightarrow> js_string \<Rightarrow> 'a option) \<Rightarrow> js_string \<Rightarrow> js_string \<Rightarrow> 'a option" where
  "star P k acc [] = k acc []"
| "star P k acc (c # cs) =
     (if P c then (case star P k (acc @ [c]) cs of Some r \<Rightarrow> Some r | None \<Rightarrow> k acc (c # cs))
      else k acc (c # cs))"

text \<open>\<open>[P]+\<close> followed by \<open>k\<close>.\<close>

definition plus1 :: "(nat \<Rightarrow> bool) \<Rightarrow> (js_string \<Rightarrow> js_string \<Rightarrow> 'a option) \<Rightarrow> js_string \<Rightarrow> 'a option" where
  "plus1 P k s = (case s of [] \<Rightarrow> None | c # cs \<Rightarrow> if P c then star P k [c] cs else None)"

text \<open>\<open>\.?\<close> followed by \<open>k\<close>: the dot is taken first and given back if \<open>k\<close> fails.\<close>

definition opt_dot :: "(js_string \<Rightarrow> 'a option) \<Rightarrow> js_string \<Rightarrow> 'a option" where
  "opt_dot k s =
     (case s of
        [] \<Rightarrow> k []
      | c # cs \<Rightarrow>
          if c = cu CHR ''.'' then (case k cs of Some r \<Rightarrow> Some r | None \<Rightarrow> k (c # cs))
          else k (c # cs))"

text \<open>\<open>[-=]>\<close> followed by \<open>k\<close>.\<close>

definition arrow_token :: "(js_string \<Rightarrow> 'a option) \<Rightarrow> js_string \<Rightarrow> 'a option" where
  "arrow_token k s =
     (case s of
        a # b # r \<Rightarrow> if (a = cu CHR ''-'' \<or> a = cu CHR ''='') \<and> b = cu CHR ''>'' then k r else None
      | _ \<Rightarrow> None)"

text \<open>\<open>(\w+)\<close>, and \<open>[:\s_-]+(\w+)\<close>.\<close>

definition bt_word :: "js_string \<Rightarrow> js_string option" where
  "bt_word = plus1 is_word (\<lambda>w rest. Some w)"

definition bt_header_tail :: "js_string \<Rightarrow> js_string option" where
  "bt_header_tail = plus1 is_header_sep (\<lambda>sep. bt_word)"

text \<open>\<open>([A-Za-z0-9_]+)\b\<close>: after the group, the end of the input or no word character.\<close>

definition bt_dot_name :: "js_string \<Rightarrow> js_string option" where
  "bt_dot_name =
     plus1 is_word (\<lambda>nm rest. if rest = [] \<or> \<not> is_word (hd rest) then Some nm else None)"

text \<open>The arrow expression from the right: \<open>([A-Za-z0-9_]+)\.?([A-Za-z0-9_]*)\<close> for groups
  3 and 4, then \<open>\s*[-=]>\s*\<close> before it, then groups 1 and 2 before that.\<close>

definition bt_target :: "js_string \<Rightarrow> js_string \<Rightarrow> js_string \<Rightarrow> (js_string \<times> js_string \<times> js_string \<times> js_string) option" where
  "bt_target p1 p2 =
     plus1 is_word (\<lambda>p3. opt_dot (star is_word (\<lambda>p4 rest. Some (p1, p2, p3, p4)) []))"

definition bt_middle :: "js_string \<Rightarrow> js_string \<Rightarrow> js_string \<Rightarrow> (js_string \<times> js_string \<times> js_string \<times> js_string) option" where
  "bt_middle p1 p2 =
     star is_space (\<lambda>sp1. arrow_token (star is_space (\<lambda>sp2. bt_target p1 p2) [])) []"

definition bt_arrow :: "js_string \<Rightarrow> (js_string \<times> js_string \<times> js_string \<times> js_string) option" where
  "bt_arrow = plus1 is_word (\<lambda>p1. opt_dot (star is_word (\<lambda>p2. bt_middle p1 p2) []))"

section \<open>Notions of the specification\<close>

text \<open>The marker sets of the layer classifier, as the two conditions of \<open>detectLayer\<close>
  name them: the consumption markers and the foundational markers.\<close>

definition consumption_marker :: "js_string \<Rightarrow> bool" where
  "consumption_marker n =
     (let lower = toLowerCase n in
      startsWith lower (js ''cdp'') \<or> str_includes lower (js ''_cdp'') \<or> str_includes lower (js ''consumption''))"

definition foundation_marker :: "js_string \<Rightarrow> bool" where
  "foundation_marker n =
     (let lower = toLowerCase n in
      startsWith lower (js ''fdp'') \<or> str_includes lower (js ''_fdp'') \<or> str_includes lower (js ''foundation''))"

text \<open>Every reference of the active-table list is an index into \<open>explicitTables\<close>: the
  reads \<open>explicitTables ! i\<close> of the parser are reads of fragments that exist.\<close>

definition refs_valid :: "ParseState \<Rightarrow> bool" where
  "refs_valid st = list_all (\<lambda>i. i < length (explicitTables st)) (activeTables st)"


text \<open>What the rows must leave alone in a table: its layer, its synthetic id, its name
  and its primary keys; the column list may only grow at its end.\<close>

definition same_identity :: "TableMetadata \<Rightarrow> TableMetadata \<Rightarrow> bool" where
  "same_identity t t' =
     (tbl_layer t' = tbl_layer t \<and> tbl_id t' = tbl_id t \<and> targetName t' = targetName t \<and>
      primaryKeys t' = primaryKeys t \<and> prefix (columns t) (columns t'))"

text \<open>Within one source reference, no two field mappings share a target field.\<close>

definition targets_distinct :: "SourceAsset \<Rightarrow> bool" where
  "targets_distinct s = distinct (map map_targetField (mappings s))"

text \<open>The field mapping that a mapping row stands for.\<close>

definition mapping_of_row :: "EnhancedMappingRow \<Rightarrow> FieldMapping" where
  "mapping_of_row row =
     \<lparr>map_sourceField = sourceField row, map_targetField = targetField row,
      map_transformation = (case transformation row of None \<Rightarrow> [] | Some x \<Rightarrow> x)\<rparr>"

text \<open>Of the rows that share a target field, only the first in input order.\<close>

definition first_per_target :: "EnhancedMappingRow list \<Rightarrow> EnhancedMappingRow list" where
  "first_per_target rs =
     foldl (\<lambda>kept r. if targetField r \<in> targetField ` set kept then kept else kept @ [r]) [] rs"

text \<open>The field mappings of the source reference with the given name (the first such
  entry, as \<open>find\<close> gives it) in a list of sources, and in the table of a given name.\<close>

definition src_mappings :: "SourceAsset list \<Rightarrow> js_string \<Rightarrow> FieldMapping list" where
  "src_mappings ss S = (case find (\<lambda>s. src_name s = S) ss of None \<Rightarrow> [] | Some s \<Rightarrow> mappings s)"

definition mappings_of :: "TableMetadata js_map \<Rightarrow> js_string \<Rightarrow> js_string \<Rightarrow> FieldMapping list" where
  "mappings_of tbls T S = (case map_of tbls T of None \<Rightarrow> [] | Some t \<Rightarrow> src_mappings (sources t) S)"

text \<open>The invariant for a table and for all tables of the map.\<close>

definition table_ok :: "TableMetadata \<Rightarrow> bool" where
  "table_ok t = (\<forall>s\<in>set (sources t). targets_distinct s)"

definition all_ok :: "TableMetadata js_map \<Rightarrow> bool" where
  "all_ok m = list_all (\<lambda>e. table_ok (snd e)) m"

text \<open>The sources of the table stored under a name; none for a name that is absent.\<close>

definition src_of :: "TableMetadata js_map \<Rightarrow> js_string \<Rightarrow> SourceAsset list" where
  "src_of m T = (case map_of m T of None \<Rightarrow> [] | Some t \<Rightarrow> sources t)"

text \<open>Rule 4 in the words of the specification. The tokens of a line without the
  noise (a token of at most one character, or with a character that is no word
  character), and the valid tokens, which are those that are no reserved word either.\<close>

definition noise_free_tokens :: "js_string \<Rightarrow> js_string list" where
  "noise_free_tokens line = filter (\<lambda>w. length w > 1 \<and> list_all is_word w) (split_fields line)"

definition valid_tokens :: "js_string \<Rightarrow> js_string list" where
  "valid_tokens line = filter (\<lambda>w. toUpperCase w \<notin> set reserved_words) (noise_free_tokens line)"

text \<open>A token becomes a new field of the fragment referenced by \<open>i\<close>; a token that
  is a field of that fragment already is skipped.\<close>

definition new_field :: "ParsedTableFragment list \<Rightarrow> nat \<Rightarrow> js_string \<Rightarrow> ParsedTableFragment list" where
  "new_field ets i w =
     (if w \<in> set (frag_fields (ets ! i)) then ets
      else ets[i := (ets ! i)\<lparr>frag_fields := frag_fields (ets ! i) @ [w]\<rparr>])"

text \<open>The rule as claimed: the reserved words are discarded with the noise, before the
  tokens are counted and before the positions are taken.\<close>

definition spec_loose_fields ::
  "ParsedTableFragment list \<Rightarrow> nat list \<Rightarrow> js_string \<Rightarrow> ParsedTableFragment list" where
  "spec_loose_fields ets active line =
     (let toks = valid_tokens line in
      if 2 \<le> length active \<and> length active \<le> length toks
      then foldl (\<lambda>e (i, w). new_field e i w) ets (zip active toks)
      else foldl (\<lambda>e w. new_field e (last active) w) ets toks)"

text \<open>The rule as the code has it: a reserved word is counted and holds its position,
  and is only kept from becoming a field.\<close>

definition new_field_unless_reserved ::
  "ParsedTableFragment list \<Rightarrow> nat \<Rightarrow> js_string \<Rightarrow> ParsedTableFragment list" where
  "new_field_unless_reserved ets i w =
     (if toUpperCase w \<in> set reserved_words then ets else new_field ets i w)"

definition amended_loose_fields ::
  "ParsedTableFragment list \<Rightarrow> nat list \<Rightarrow> js_string \<Rightarrow> ParsedTableFragment list" where
  "amended_loose_fields ets active line =
     (let toks = noise_free_tokens line in
      if 2 \<le> length active \<and> length active \<le> length toks
      then foldl (\<lambda>e (i, w). new_field_unless_reserved e i w) ets (zip active toks)
      else foldl (\<lambda>e w. new_field_unless_reserved e (last active) w) ets toks)"






section \<open>Evaluation of the primitives\<close>

text \<open>Literals: two literals are the same string exactly when they are written the
  same.\<close>

lemma js_inject [simp]: "(js a = js b) = (a = b)"
  by (simp add: js_def inj_map_eq_map inj_on_def)

lemma js_Nil [simp]: "js [] = []" "(js a = []) = (a = [])" "([] = js a) = (a = [])"
  by (auto simp: js_def)

lemma length_js [simp]: "length (js a) = length a"
  by (simp add: js_def)


lemma eval_split_on:
  "split_on (cu CHR '','') (js ''a,,b,'') = [js ''a'', [], js ''b'', []]" "split_on (cu CHR '','') [] = [[]]"
  by code_simp+

lemma eval_split_fields: "split_fields (js ''|ab  c|de '') = [[], js ''ab'', js ''c'', js ''de'', []]"
  by code_simp

lemma eval_dotNotationMatches:
  "dotNotationMatches (js ''xODP.a odp.b_c.d raw.x'') = [(js ''odp'', js ''b_c''), (js ''raw'', js ''x'')]"
  "dotNotationMatches (js ''ODP.ODP.x'') = [(js ''ODP'', js ''ODP'')]"
  by code_simp+

lemma eval_standardMatch:
  "standardMatch (js ''ODP_CUSTOMER_RAW'') = Some (js ''ODP'', js ''CUSTOMER_RAW'')"
  "standardMatch (js ''odp - x_y z'') = Some (js ''odp'', js ''x_y'')"
  "standardMatch (js ''ODP__'') = Some (js ''ODP'', js ''_'')"
  "standardMatch (js ''ODPX'') = None"
  by code_simp+

lemma eval_mappingMatch:
  "mappingMatch (js ''  t.f->u.g  '') = Some (js ''t'', js ''f'', js ''u'', js ''g'')"
  "mappingMatch (js ''a.b.c -> d'') = Some (js ''b'', js ''c'', js ''d'', [])"
  "mappingMatch (js ''x => y'') = Some (js ''x'', [], js ''y'', [])"
  "mappingMatch (js ''ab->'') = None"
  by code_simp+

section \<open>The matchers are the backtracking semantics\<close>

lemma star_greedy:
  assumes "\<And>a c cs. P c \<Longrightarrow> k (a @ takeWhile P (c # cs)) (dropWhile P (c # cs)) = None \<Longrightarrow>
             k a (c # cs) = None"
  shows "star P k acc s = k (acc @ takeWhile P s) (dropWhile P s)"
proof (induction s arbitrary: acc)
  case Nil
  show ?case by simp
next
  case (Cons c cs)
  show ?case
  proof (cases "P c")
    case False
    then show ?thesis by simp
  next
    case True
    have g: "star P k (acc @ [c]) cs = k (acc @ takeWhile P (c # cs)) (dropWhile P (c # cs))"
      using True by (simp add: Cons.IH)
    show ?thesis
    proof (cases "k (acc @ takeWhile P (c # cs)) (dropWhile P (c # cs))")
      case None
      with assms [OF True] have "k acc (c # cs) = None" by simp
      with True g None show ?thesis by simp
    next
      case (Some r)
      with True g show ?thesis by simp
    qed
  qed
qed

lemma plus1_greedy:
  assumes "\<And>a c cs. P c \<Longrightarrow> k (a @ takeWhile P (c # cs)) (dropWhile P (c # cs)) = None \<Longrightarrow>
             k a (c # cs) = None"
  shows "plus1 P k s = (if takeWhile P s = [] then None else k (takeWhile P s) (dropWhile P s))"
proof (cases s)
  case Nil
  then show ?thesis by (simp add: plus1_def)
next
  case (Cons c cs)
  then show ?thesis using star_greedy [of P k "[c]" cs, OF assms] by (simp add: plus1_def)
qed

lemma space_not_word: "is_space c \<Longrightarrow> \<not> is_word c"
  by (auto simp: is_space_def is_word_def)

lemma space_not_arrow: "is_space c \<Longrightarrow> c \<noteq> cu CHR ''-'' \<and> c \<noteq> cu CHR ''=''"
  by (auto simp: is_space_def)

lemma word_not_special: "is_word c \<Longrightarrow> \<not> is_space c \<and> c \<noteq> cu CHR ''-'' \<and> c \<noteq> cu CHR ''='' \<and> c \<noteq> cu CHR ''.''"
  by (auto simp: is_space_def is_word_def)

lemma star_greedy_nil:
  assumes "\<And>a c cs. P c \<Longrightarrow> k (a @ takeWhile P (c # cs)) (dropWhile P (c # cs)) = None \<Longrightarrow>
             k a (c # cs) = None"
  shows "star P k [] s = k (takeWhile P s) (dropWhile P s)"
  using star_greedy [of P k "[]" s, OF assms] by simp

lemma dropWhile_head: "dropWhile P s = d # ds \<Longrightarrow> \<not> P d"
  using hd_dropWhile [of P s] by auto

lemma bt_last_group:
  "star is_word (\<lambda>p4 rest. Some (p1, p2, p3, p4)) [] r = Some (p1, p2, p3, takeWhile is_word r)"
  by (rule star_greedy_nil) simp

lemma bt_target_greedy:
  "bt_target p1 p2 s =
     (case arrow_side s of None \<Rightarrow> None | Some (p3, p4, r) \<Rightarrow> Some (p1, p2, p3, p4))"
proof -
  let ?k = "\<lambda>p3. opt_dot (star is_word (\<lambda>p4 rest. Some (p1, p2, p3, p4)) [])"
  have tot: "?k p3 r \<noteq> None" for p3 r
    by (cases r) (simp_all add: opt_dot_def bt_last_group del: star.simps)
  have t: "bt_target p1 p2 s =
     (if takeWhile is_word s = [] then None
      else ?k (takeWhile is_word s) (dropWhile is_word s))"
    unfolding bt_target_def by (rule plus1_greedy) (simp add: tot)
  show ?thesis
  proof (cases "takeWhile is_word s = []")
    case True
    with t show ?thesis by (simp add: arrow_side_def)
  next
    case False
    show ?thesis
    proof (cases "dropWhile is_word s")
      case Nil
      from t False show ?thesis
        unfolding arrow_side_def Let_def Nil
        by (simp add: opt_dot_def bt_last_group del: star.simps)
    next
      case (Cons d ds)
      then have "\<not> is_word d" by (rule dropWhile_head)
      with t False show ?thesis
        unfolding arrow_side_def Let_def Cons
        by (simp add: opt_dot_def bt_last_group del: star.simps)
    qed
  qed
qed

lemma bt_target_None: "bt_target p1 p2 s = None \<longleftrightarrow> arrow_side s = None"
  by (simp add: bt_target_greedy split: option.splits)

lemma bt_target_no_word: "\<not> is_word c \<Longrightarrow> bt_target p1 p2 (c # cs) = None"
  by (simp add: bt_target_def plus1_def)

lemma arrow_token_space: "is_space c \<Longrightarrow> arrow_token k (c # cs) = None"
  by (cases cs) (auto simp: arrow_token_def dest: space_not_arrow)

lemma bt_middle_greedy:
  "bt_middle p1 p2 s =
     arrow_token (\<lambda>r. bt_target p1 p2 (dropWhile is_space r)) (dropWhile is_space s)"
proof -
  have inner: "star is_space (\<lambda>sp2. bt_target p1 p2) [] = (\<lambda>r. bt_target p1 p2 (dropWhile is_space r))"
  proof
    fix r
    show "star is_space (\<lambda>sp2. bt_target p1 p2) [] r = bt_target p1 p2 (dropWhile is_space r)"
      by (rule star_greedy_nil) (simp add: bt_target_no_word space_not_word)
  qed
  have "bt_middle p1 p2 s =
      arrow_token (star is_space (\<lambda>sp2. bt_target p1 p2) []) (dropWhile is_space s)"
    unfolding bt_middle_def by (rule star_greedy_nil) (simp add: arrow_token_space)
  then show ?thesis by (simp only: inner)
qed

lemma arrow_token_None:
  assumes "\<And>r. k r = None \<longleftrightarrow> k' r = None"
  shows "arrow_token k s = None \<longleftrightarrow> arrow_token k' s = None"
proof (cases s)
  case Nil
  then show ?thesis by (simp add: arrow_token_def)
next
  case (Cons a r)
  then show ?thesis by (cases r) (simp_all add: arrow_token_def assms)
qed

lemma bt_middle_groups: "bt_middle p1 p2 s = None \<longleftrightarrow> bt_middle q1 q2 s = None"
  unfolding bt_middle_greedy by (rule arrow_token_None) (simp add: bt_target_None)

lemma arrow_token_other:
  "c \<noteq> cu CHR ''-'' \<Longrightarrow> c \<noteq> cu CHR ''='' \<Longrightarrow> arrow_token k (c # cs) = None"
  by (cases cs) (simp_all add: arrow_token_def)

lemma bt_middle_no_arrow:
  assumes "is_word c \<or> c = cu CHR ''.''"
  shows "bt_middle p1 p2 (c # cs) = None"
proof -
  from assms have "\<not> is_space c" "c \<noteq> cu CHR ''-''" "c \<noteq> cu CHR ''=''"
    by (auto simp: is_space_def dest: word_not_special)
  then show ?thesis by (simp add: bt_middle_greedy arrow_token_other)
qed

lemma bt_source_rest:
  "star is_word (\<lambda>p2. bt_middle p1 p2) [] s =
     bt_middle p1 (takeWhile is_word s) (dropWhile is_word s)"
  by (rule star_greedy_nil) (simp add: bt_middle_no_arrow)

lemma arrow_here_middle:
  "arrow_here s =
     (case arrow_side s of None \<Rightarrow> None | Some (p1, p2, r) \<Rightarrow> bt_middle p1 p2 r)"
proof (cases "arrow_side s")
  case None
  then show ?thesis by (simp add: arrow_here_def)
next
  case (Some x)
  obtain p1 p2 r where x: "x = (p1, p2, r)" by (cases x)
  with Some show ?thesis
    unfolding arrow_here_def bt_middle_greedy arrow_token_def
    by (simp add: bt_target_greedy split: list.splits del: dropWhile_eq_Nil_conv)
qed

lemma bt_arrow_greedy: "bt_arrow s = arrow_here s"
proof -
  let ?k = "\<lambda>p1. opt_dot (star is_word (\<lambda>p2. bt_middle p1 p2) [])"
  have k_word: "?k a (c # cs) = bt_middle a (takeWhile is_word (c # cs)) (dropWhile is_word (c # cs))"
    if "is_word c" for a c cs
  proof -
    from that have "c \<noteq> cu CHR ''.''" by (auto dest: word_not_special)
    then show ?thesis by (simp add: opt_dot_def bt_source_rest del: star.simps)
  qed
  have k_rest: "?k a r = (case r of
        [] \<Rightarrow> bt_middle a [] []
      | d # ds \<Rightarrow> if d = cu CHR ''.'' then bt_middle a (takeWhile is_word ds) (dropWhile is_word ds)
                  else bt_middle a [] r)"
    if "r = [] \<or> \<not> is_word (hd r)" for a r
  proof (cases r)
    case Nil
    then show ?thesis by (simp add: opt_dot_def bt_source_rest del: star.simps)
  next
    case (Cons d ds)
    with that have nw: "\<not> is_word d" by simp
    show ?thesis
    proof (cases "d = cu CHR ''.''")
      case True
      then have "bt_middle a [] (d # ds) = None" by (simp add: bt_middle_no_arrow)
      with Cons True nw show ?thesis
        by (simp add: opt_dot_def bt_source_rest split: option.splits del: star.simps)
    next
      case False
      with Cons nw show ?thesis by (simp add: opt_dot_def bt_source_rest del: star.simps)
    qed
  qed
  have shorter: "?k a (c # cs) = None"
    if w: "is_word c" and g: "?k (a @ takeWhile is_word (c # cs)) (dropWhile is_word (c # cs)) = None"
    for a c cs
  proof -
    let ?r = "dropWhile is_word (c # cs)"
    have e: "?r = [] \<or> \<not> is_word (hd ?r)" using hd_dropWhile [of is_word "c # cs"] by blast
    have "bt_middle a (takeWhile is_word (c # cs)) ?r = None"
    proof (cases ?r)
      case Nil
      with g k_rest [OF e] have "bt_middle (a @ takeWhile is_word (c # cs)) [] [] = None" by simp
      then have "bt_middle a (takeWhile is_word (c # cs)) [] = None"
        using bt_middle_groups by blast
      with Nil show ?thesis by simp
    next
      case (Cons d ds)
      show ?thesis
      proof (cases "d = cu CHR ''.''")
        case True
        with Cons show ?thesis by (simp add: bt_middle_no_arrow)
      next
        case False
        with g k_rest [OF e] Cons
        have "bt_middle (a @ takeWhile is_word (c # cs)) [] (d # ds) = None" by simp
        then have "bt_middle a (takeWhile is_word (c # cs)) (d # ds) = None"
          using bt_middle_groups by blast
        with Cons show ?thesis by simp
      qed
    qed
    then show ?thesis by (simp only: k_word [OF w])
  qed
  have b: "bt_arrow s =
      (if takeWhile is_word s = [] then None else ?k (takeWhile is_word s) (dropWhile is_word s))"
    unfolding bt_arrow_def by (rule plus1_greedy) (rule shorter)
  have e: "dropWhile is_word s = [] \<or> \<not> is_word (hd (dropWhile is_word s))"
    using hd_dropWhile [of is_word s] by blast
  show ?thesis
  proof (cases "takeWhile is_word s = []")
    case True
    with b show ?thesis by (simp add: arrow_here_middle arrow_side_def)
  next
    case False
    with b have "bt_arrow s = ?k (takeWhile is_word s) (dropWhile is_word s)" by simp
    also have "\<dots> = arrow_here s"
      unfolding k_rest [OF e] arrow_here_middle arrow_side_def Let_def
      using False by (simp split: list.splits del: dropWhile_eq_Nil_conv)
    finally show ?thesis .
  qed
qed

lemma bt_word_greedy:
  "bt_word s = (let w = takeWhile is_word s in if w = [] then None else Some w)"
  unfolding bt_word_def Let_def by (rule plus1_greedy) simp

lemma bt_header_star:
  "star is_header_sep (\<lambda>sep. bt_word) acc s =
     (case header_tail s of Some w \<Rightarrow> Some w | None \<Rightarrow> bt_word s)"
proof (induction s arbitrary: acc)
  case Nil
  show ?case by simp
next
  case (Cons c cs)
  show ?case
    by (cases "header_tail cs") (simp_all add: Cons.IH bt_word_greedy [of cs])
qed

lemma bt_header_tail_greedy: "bt_header_tail s = header_tail s"
proof (cases s)
  case Nil
  then show ?thesis by (simp add: bt_header_tail_def plus1_def)
next
  case (Cons c cs)
  then show ?thesis
    by (simp add: bt_header_tail_def plus1_def bt_header_star bt_word_greedy [of cs]
        split: option.splits del: star.simps)
qed

lemma bt_dot_name_greedy:
  "bt_dot_name s = (let nm = takeWhile is_word s in if nm = [] then None else Some nm)"
proof -
  have e: "dropWhile is_word s = [] \<or> \<not> is_word (hd (dropWhile is_word s))"
    using hd_dropWhile [of is_word s] by blast
  have "bt_dot_name s =
      (if takeWhile is_word s = [] then None
       else if dropWhile is_word s = [] \<or> \<not> is_word (hd (dropWhile is_word s))
            then Some (takeWhile is_word s) else None)"
    unfolding bt_dot_name_def by (rule plus1_greedy) simp
  with e show ?thesis by (simp add: Let_def del: dropWhile_eq_Nil_conv)
qed

text \<open>At most one alternative of the layer-token group matches at a position, so
  the order of the alternatives and backtracking into the group do not matter.\<close>

lemma layer_tokens_prefix_free:
  "\<forall>a\<in>set layer_tokens. \<forall>b\<in>set layer_tokens. prefix a b \<longrightarrow> a = b"
  by (simp add: layer_tokens_def js_def)

lemma token_match_prefix:
  "toUpperCase (take n s) = t \<Longrightarrow> prefix t (toUpperCase s)"
  by (auto simp: toUpperCase_def take_map [symmetric] take_is_prefix)

lemma token_match_unique:
  assumes "t1 \<in> set layer_tokens" and "t2 \<in> set layer_tokens"
    and "toUpperCase (take (length t1) s) = t1" and "toUpperCase (take (length t2) s) = t2"
  shows "t1 = t2"
proof -
  from assms(3,4) have "prefix t1 (toUpperCase s)" "prefix t2 (toUpperCase s)"
    by (auto dest: token_match_prefix)
  then have "prefix t1 t2 \<or> prefix t2 t1" by (rule prefix_same_cases)
  with assms(1,2) layer_tokens_prefix_free show ?thesis by blast
qed

text \<open>The three matchers of \<open>parseMarkdownFormat\<close>, with their quantified parts read as
  backtracking expressions.\<close>

lemma dot_here_backtracking:
  "dot_here s =
     (case match_token layer_tokens s of
        None \<Rightarrow> None
      | Some (tok, r) \<Rightarrow>
          (case r of
             [] \<Rightarrow> None
           | d # r' \<Rightarrow>
               if d = cu CHR ''.''
               then map_option (\<lambda>nm. (tok, nm, length tok + 1 + length nm)) (bt_dot_name r')
               else None))"
  by (simp add: dot_here_def bt_dot_name_greedy Let_def split: option.splits list.splits)

lemma standardMatch_backtracking:
  "standardMatch line =
     (case match_token layer_tokens line of
        None \<Rightarrow> None
      | Some (tok, r) \<Rightarrow> map_option (\<lambda>nm. (tok, nm)) (bt_header_tail r))"
  by (simp add: standardMatch_def bt_header_tail_greedy split: option.splits)

lemma mappingMatch_backtracking:
  "mappingMatch s =
     (case s of
        [] \<Rightarrow> None
      | c # cs \<Rightarrow> (case bt_arrow s of Some m \<Rightarrow> Some m | None \<Rightarrow> mappingMatch cs))"
  by (cases s) (simp_all add: bt_arrow_greedy)

lemma findIndex_Some:
  "findIndex P xs = Some i \<Longrightarrow> i < length xs \<and> P (xs ! i)"
  by (induction xs arbitrary: i) (auto split: if_splits)

lemma find_or_push_ref:
  assumes "find_or_push ets n l = (ets', i)"
  shows "i < length ets' \<and> frag_name (ets' ! i) = n \<and> frag_layer (ets' ! i) = l \<and> prefix ets ets'"
  using assms
  by (auto simp: find_or_push_def nth_append split: option.splits dest: findIndex_Some)

section \<open>References of the active-table list\<close>

lemma length_add_word: "length (add_word e i w) = length e"
  by (simp add: add_word_def Let_def)

lemma length_foldl:
  assumes "\<And>e x. length (f e x) = length (e :: ParsedTableFragment list)"
  shows "length (foldl f e xs) = length e"
  by (induction xs arbitrary: e) (simp_all add: assms)

lemma length_loose_fields: "length (loose_fields e a l) = length e"
  by (simp add: loose_fields_def Let_def length_foldl length_add_word)

lemma dot_headers_refs:
  assumes "dot_headers ms ets new = (ets', new')" and "list_all (\<lambda>i. i < length ets) new"
  shows "list_all (\<lambda>i. i < length ets') new' \<and> length ets \<le> length ets'"
  using assms
proof (induction ms arbitrary: ets new)
  case Nil
  then show ?case by simp
next
  case (Cons m ms)
  obtain tok nm where m: "m = (tok, nm)" by (cases m)
  obtain e1 i where f: "find_or_push ets nm (layer_of_token (toUpperCase tok)) = (e1, i)"
    by (cases "find_or_push ets nm (layer_of_token (toUpperCase tok))")
  from find_or_push_ref [OF f] have i: "i < length e1" and le: "length ets \<le> length e1"
    by (auto dest: prefix_length_le)
  from Cons.prems(2) le have "list_all (\<lambda>i. i < length e1) (new @ [i])"
    using i by (auto simp: list_all_iff)
  moreover from Cons.prems(1) m f have "dot_headers ms e1 (new @ [i]) = (ets', new')" by simp
  ultimately have "list_all (\<lambda>i. i < length ets') new' \<and> length e1 \<le> length ets'"
    by (rule Cons.IH [rotated])
  with le show ?case by simp
qed

lemma refs_valid_process_line: "refs_valid st \<Longrightarrow> refs_valid (process_line st l)"
proof -
  assume v: "refs_valid st"
  show ?thesis
  proof (cases "dotNotationMatches l = []")
    case False
    obtain ets' new' where d: "dot_headers (dotNotationMatches l) (explicitTables st) [] = (ets', new')"
      by (cases "dot_headers (dotNotationMatches l) (explicitTables st) []")
    from dot_headers_refs [OF d] have "list_all (\<lambda>i. i < length ets') new'" by simp
    with False d show ?thesis by (simp add: process_line_def refs_valid_def)
  next
    case True
    show ?thesis
    proof (cases "standardMatch l")
      case (Some a)
      obtain tok nm where a: "a = (tok, nm)" by (cases a)
      obtain e1 i where f:
        "find_or_push (explicitTables st) nm (layer_of_token (toUpperCase tok)) = (e1, i)"
        by (cases "find_or_push (explicitTables st) nm (layer_of_token (toUpperCase tok))")
      from find_or_push_ref [OF f] have "i < length e1" by simp
      with True Some a f show ?thesis by (simp add: process_line_def refs_valid_def)
    next
      case None
      with True v show ?thesis
        by (cases "mappingMatch l")
          (simp_all add: process_line_def refs_valid_def length_loose_fields)
    qed
  qed
qed

text \<open>The parser never holds a dangling reference.\<close>

lemma refs_valid_parse_state: "refs_valid (parse_state content)"
proof -
  have "refs_valid st \<Longrightarrow> refs_valid (foldl process_line st ls)" for st ls
    by (induction ls arbitrary: st) (simp_all add: refs_valid_process_line)
  then show ?thesis by (simp add: parse_state_def refs_valid_def init_state_def)
qed

section \<open>The layer classifier\<close>

text \<open>
  Claim C8. \<open>detectLayer\<close> is a function of the name alone and returns one layer for every
  name: the consumption markers are checked first, the foundational markers second,
  and origination is the default, so a name with markers of both sets is classified as
  consumption. In particular \<open>cdp_orders\<close> is consumption, \<open>fdp_customer\<close> is
  foundational and \<open>raw_events\<close> is origination.
\<close>

theorem detectLayer_priority:
  "(consumption_marker n \<longrightarrow> detectLayer n = CDP) \<and>
   (\<not> consumption_marker n \<and> foundation_marker n \<longrightarrow> detectLayer n = FDP) \<and>
   (\<not> consumption_marker n \<and> \<not> foundation_marker n \<longrightarrow> detectLayer n = ODP) \<and>
   detectLayer (js ''cdp_orders'') = CDP \<and>
   detectLayer (js ''fdp_customer'') = FDP \<and>
   detectLayer (js ''raw_events'') = ODP"
proof -
  have general:
    "detectLayer n = (if consumption_marker n then CDP else if foundation_marker n then FDP else ODP)"
    by (simp add: detectLayer_def consumption_marker_def foundation_marker_def Let_def)
  have c: "detectLayer (js ''cdp_orders'') = CDP" by code_simp
  have f: "detectLayer (js ''fdp_customer'') = FDP" by code_simp
  have r: "detectLayer (js ''raw_events'') = ODP" by code_simp
  from general c f r show ?thesis by simp
qed

text \<open>The three cases at concrete names: \<open>fdp_cdp\<close> carries markers of both sets.\<close>

theorem detectLayer_priority_witness:
  "consumption_marker (js ''fdp_cdp'') \<and> foundation_marker (js ''fdp_cdp'') \<and> detectLayer (js ''fdp_cdp'') = CDP \<and>
   \<not> consumption_marker (js ''my_fdp'') \<and> foundation_marker (js ''my_fdp'') \<and> detectLayer (js ''my_fdp'') = FDP \<and>
   \<not> consumption_marker (js ''orders'') \<and> \<not> foundation_marker (js ''orders'') \<and> detectLayer (js ''orders'') = ODP"
proof -
  have a: "consumption_marker (js ''fdp_cdp'')" "foundation_marker (js ''fdp_cdp'')" by code_simp+
  have b: "\<not> consumption_marker (js ''my_fdp'')" "foundation_marker (js ''my_fdp'')" by code_simp+
  have c: "\<not> consumption_marker (js ''orders'')" "\<not> foundation_marker (js ''orders'')" by code_simp+
  from a b c detectLayer_priority [of "js ''fdp_cdp''"] detectLayer_priority [of "js ''my_fdp''"]
    detectLayer_priority [of "js ''orders''"]
  show ?thesis by blast
qed

section \<open>Transcript examples\<close>

lemma eval_two_headers_arrow:
  "extract_phase (js ''ODP: SRC\<newline>FDP: TGT\<newline>id -> id'') =
     ([\<lparr>sourceTable = js ''TGT'', sourceField = js ''id'', targetTable = js ''TGT'',
        targetField = js ''id'', dataType = js ''STRING'', transformation = None,
        sourceLayer = Some ODP, targetLayer = Some ODP\<rparr>],
      [\<lparr>frag_name = js ''SRC'', frag_layer = ODP, frag_fields = []\<rparr>,
       \<lparr>frag_name = js ''TGT'', frag_layer = FDP, frag_fields = []\<rparr>])"
  by code_simp

text \<open>
  Claim C1, as amended. The input of the three lines \<open>ODP: SRC\<close>, \<open>FDP: TGT\<close>,
  \<open>id -> id\<close> is a transcript, and its parse has exactly one row, for the arrow line.
  A standard header replaces the active-table list by the one fragment of that
  header, so at the arrow line the list holds \<open>TGT\<close> alone: the row has the source
  table \<open>TGT\<close> and the target table \<open>TGT\<close>, both taken from the second header.
\<close>

theorem arrow_inherits_last_header:
  "is_transcript (js ''ODP: SRC\<newline>FDP: TGT\<newline>id -> id'') \<and>
   fst (extract_phase (js ''ODP: SRC\<newline>FDP: TGT\<newline>id -> id'')) =
     [\<lparr>sourceTable = js ''TGT'', sourceField = js ''id'', targetTable = js ''TGT'',
       targetField = js ''id'', dataType = js ''STRING'', transformation = None,
       sourceLayer = Some ODP, targetLayer = Some ODP\<rparr>]"
proof -
  have "is_transcript (js ''ODP: SRC\<newline>FDP: TGT\<newline>id -> id'')" by code_simp
  then show ?thesis by (simp add: eval_two_headers_arrow)
qed

text \<open>The source table of that row is not \<open>SRC\<close>, the table of the first header.\<close>

theorem arrow_source_not_first_header:
  "map sourceTable (fst (extract_phase (js ''ODP: SRC\<newline>FDP: TGT\<newline>id -> id''))) \<noteq> [js ''SRC'']"
  by (simp add: eval_two_headers_arrow)

section \<open>CSV example\<close>

text \<open>
  Claim C4. For the CSV line \<open>raw_customers,customer_id,fdp_customer,id,STRING\<close> with
  its line feed, \<open>analyze\<close> returns exactly two tables: \<open>fdp_customer\<close> in the
  foundational layer and \<open>raw_customers\<close> in the origination layer; \<open>fdp_customer\<close>
  has exactly one source, \<open>raw_customers\<close>, with exactly one field mapping, from
  \<open>customer_id\<close> to \<open>id\<close>.
\<close>

theorem csv_single_line:
  "analyze (js ''raw_customers,customer_id,fdp_customer,id,STRING\<newline>'') =
     Inr \<lparr>tables =
           [\<lparr>tbl_id = js ''fdp-fdp_customer'', tbl_layer = FDP, targetName = js ''fdp_customer'',
             columns = [js ''id'', js ''created_at'', js ''updated_at''], primaryKeys = [js ''id''],
             sources =
               [\<lparr>src_name = js ''raw_customers'',
                 mappings =
                   [\<lparr>map_sourceField = js ''customer_id'', map_targetField = js ''id'',
                     map_transformation = []\<rparr>]\<rparr>]\<rparr>,
            \<lparr>tbl_id = js ''odp-raw_customers'', tbl_layer = ODP, targetName = js ''raw_customers'',
             columns = [js ''id'', js ''created_at'', js ''updated_at'', js ''customer_id''],
             primaryKeys = [js ''id''], sources = []\<rparr>],
          lineage = [(js ''fdp_customer'', [js ''raw_customers'']), (js ''raw_customers'', [])],
          summary = \<lparr>odpTables = 1, fdpTables = 1, cdpTables = 0, totalFields = 1\<rparr>\<rparr>"
  by code_simp

section \<open>Dot-notation headers\<close>









section \<open>Columns of a seeded table\<close>

text \<open>
  Claim C2, at the input of the two lines \<open>ODP: T\<close> and \<open>created_at\<close>. The claim is
  that no column list of the result holds a name twice. Here the fragment \<open>T\<close> has the
  field \<open>created_at\<close>, phase 1 appends the fields of the fragment to the default
  columns without the check that phase 2 makes, and the table \<open>T\<close> of the result has
  the column \<open>created_at\<close> twice.
\<close>

theorem seed_columns_duplicate:
  "analyze (js ''ODP: T\<newline>created_at'') =
     Inr \<lparr>tables =
           [\<lparr>tbl_id = js ''odp-T'', tbl_layer = ODP, targetName = js ''T'',
             columns = [js ''id'', js ''created_at'', js ''updated_at'', js ''created_at''],
             primaryKeys = [js ''id''], sources = []\<rparr>],
          lineage = [(js ''T'', [])],
          summary = \<lparr>odpTables = 1, fdpTables = 0, cdpTables = 0, totalFields = 0\<rparr>\<rparr>"
  by code_simp

section \<open>The table map\<close>

lemma map_of_map_set: "map_of (map_set m k v) = (map_of m)(k \<mapsto> v)"
  by (induction m) (auto simp: fun_eq_iff)

lemma keys_map_set_old: "k \<in> fst ` set m \<Longrightarrow> map fst (map_set m k v) = map fst m"
  by (induction m) force+

lemma keys_map_set_new: "k \<notin> fst ` set m \<Longrightarrow> map fst (map_set m k v) = map fst m @ [k]"
  by (induction m) auto

lemma keys_map_set:
  "map fst (map_set m k v) = (if k \<in> fst ` set m then map fst m else map fst m @ [k])"
  by (simp add: keys_map_set_old keys_map_set_new)

lemma distinct_map_set: "distinct (map fst m) \<Longrightarrow> distinct (map fst (map_set m k v))"
  by (simp add: keys_map_set)

lemma map_of_map_modify:
  "map_of (map_modify m k f) x = (if x = k then map_option f (map_of m k) else map_of m x)"
  by (induction m) (auto simp: map_modify_def)

lemma keys_map_modify: "map fst (map_modify m k f) = map fst m"
  by (induction m) (auto simp: map_modify_def)

section \<open>Rows keep the identity of a table\<close>

lemma same_identity_refl: "same_identity t t"
  by (simp add: same_identity_def)

lemma same_identity_trans: "same_identity a b \<Longrightarrow> same_identity b c \<Longrightarrow> same_identity a c"
  by (auto simp: same_identity_def)

lemma same_identity_add_column: "same_identity t (add_column f t)"
  by (simp add: same_identity_def add_column_def)

lemma same_identity_add_mapping: "same_identity t (add_mapping r t)"
  by (simp add: same_identity_def add_mapping_def split: option.splits)

lemma ensure_keeps:
  "map_of tbls k = Some t \<Longrightarrow> map_of (ensureTableExists tbls n l) k = Some t"
  by (auto simp: ensureTableExists_def map_has_def map_of_map_set)

lemma modify_keeps:
  assumes "map_of tbls k = Some t" and "\<And>u. same_identity u (f u)"
  shows "\<exists>t'. map_of (map_modify tbls n f) k = Some t' \<and> same_identity t t'"
  using assms by (cases "k = n") (auto simp: map_of_map_modify same_identity_refl)

lemma add_row_keeps:
  assumes "map_of tbls k = Some t"
  shows "\<exists>t'. map_of (add_row tbls r) k = Some t' \<and> same_identity t t'"
proof -
  let ?t1 = "ensureTableExists tbls (targetTable r) (layer_or_odp (targetLayer r))"
  let ?t2 = "map_modify ?t1 (targetTable r) (add_column (targetField r))"
  let ?t3 = "ensureTableExists ?t2 (sourceTable r) (layer_or_odp (sourceLayer r))"
  let ?t4 = "map_modify ?t3 (sourceTable r) (add_column (sourceField r))"
  from assms have "map_of ?t1 k = Some t" by (rule ensure_keeps)
  from modify_keeps [where f = "add_column (targetField r)", OF this same_identity_add_column]
  obtain a where a: "map_of ?t2 k = Some a" "same_identity t a" by blast
  from a(1) have "map_of ?t3 k = Some a" by (rule ensure_keeps)
  from modify_keeps [where f = "add_column (sourceField r)", OF this same_identity_add_column]
  obtain b where b: "map_of ?t4 k = Some b" "same_identity a b" by blast
  from modify_keeps [where f = "add_mapping r", OF b(1) same_identity_add_mapping]
  obtain c where c: "map_of (map_modify ?t4 (targetTable r) (add_mapping r)) k = Some c"
      "same_identity b c" by blast
  from a b c have "same_identity t c" by (blast intro: same_identity_trans)
  with c(1) show ?thesis by (auto simp: add_row_def Let_def)
qed

lemma rows_keep:
  "map_of tbls k = Some t \<Longrightarrow>
   \<exists>t'. map_of (foldl add_row tbls rs) k = Some t' \<and> same_identity t t'"
proof (induction rs arbitrary: tbls t)
  case Nil
  then show ?case by (auto simp: same_identity_refl)
next
  case (Cons r rs)
  from add_row_keeps [OF Cons.prems] obtain a
    where a: "map_of (add_row tbls r) k = Some a" "same_identity t a" by blast
  from Cons.IH [OF a(1)] obtain b
    where "map_of (foldl add_row (add_row tbls r) rs) k = Some b" "same_identity a b" by blast
  with a(2) show ?case by (auto intro: same_identity_trans)
qed

lemma keys_ensure:
  "distinct (map fst tbls) \<Longrightarrow> distinct (map fst (ensureTableExists tbls n l))"
  by (simp add: ensureTableExists_def distinct_map_set)

lemma keys_add_row: "distinct (map fst tbls) \<Longrightarrow> distinct (map fst (add_row tbls r))"
  by (simp add: add_row_def Let_def keys_map_modify keys_ensure)

lemma keys_rows: "distinct (map fst tbls) \<Longrightarrow> distinct (map fst (foldl add_row tbls rs))"
  by (induction rs arbitrary: tbls) (auto simp: keys_add_row)

lemma keys_seed_from:
  "distinct (map fst m) \<Longrightarrow>
   distinct (map fst (foldl (\<lambda>tbls tbl. map_set tbls (frag_name tbl)
      (new_table (frag_name tbl) (frag_layer tbl) (default_columns @ frag_fields tbl))) m ets))"
  by (induction ets arbitrary: m) (auto simp: distinct_map_set)

lemma keys_seed: "distinct (map fst (seed_tables ets))"
  unfolding seed_tables_def by (rule keys_seed_from) simp

lemma keys_generateTables: "distinct (map fst (generateTables rs ets))"
  by (simp add: generateTables_def keys_rows keys_seed)

text \<open>
  Claim C9. Every table that phase 1 seeds from an explicit fragment is still in the
  map after phase 2 has processed the rows, under the same name, with the same layer
  and the same synthetic id, and its phase-1 column list is a prefix of its final
  column list, whatever the rows are and whether or not they name the table.
\<close>

theorem fragment_identity_kept:
  assumes "(k, t) \<in> set (seed_tables ets)"
  shows "\<exists>t'. (k, t') \<in> set (generateTables rs ets) \<and> tbl_layer t' = tbl_layer t \<and>
           tbl_id t' = tbl_id t \<and> prefix (columns t) (columns t')"
proof -
  from assms have "map_of (seed_tables ets) k = Some t"
    by (simp add: keys_seed)
  from rows_keep [OF this, of rs] obtain t'
    where "map_of (generateTables rs ets) k = Some t'" "same_identity t t'"
    by (auto simp: generateTables_def)
  then show ?thesis by (auto simp: same_identity_def dest: map_of_SomeD)
qed

lemma eval_seed_two_headers:
  "seed_tables [\<lparr>frag_name = js ''SRC'', frag_layer = ODP, frag_fields = []\<rparr>,
                \<lparr>frag_name = js ''TGT'', frag_layer = FDP, frag_fields = []\<rparr>] =
     [(js ''SRC'', \<lparr>tbl_id = js ''odp-SRC'', tbl_layer = ODP, targetName = js ''SRC'',
         columns = [js ''id'', js ''created_at'', js ''updated_at''], primaryKeys = [js ''id''], sources = []\<rparr>),
      (js ''TGT'', \<lparr>tbl_id = js ''fdp-TGT'', tbl_layer = FDP, targetName = js ''TGT'',
         columns = [js ''id'', js ''created_at'', js ''updated_at''], primaryKeys = [js ''id''], sources = []\<rparr>)]"
  by code_simp

lemma eval_tables_two_headers:
  "generateTables
     [\<lparr>sourceTable = js ''TGT'', sourceField = js ''key'', targetTable = js ''TGT'',
       targetField = js ''val'', dataType = js ''STRING'', transformation = None,
       sourceLayer = Some ODP, targetLayer = Some ODP\<rparr>]
     [\<lparr>frag_name = js ''SRC'', frag_layer = ODP, frag_fields = []\<rparr>,
      \<lparr>frag_name = js ''TGT'', frag_layer = FDP, frag_fields = []\<rparr>] =
     [(js ''SRC'', \<lparr>tbl_id = js ''odp-SRC'', tbl_layer = ODP, targetName = js ''SRC'',
         columns = [js ''id'', js ''created_at'', js ''updated_at''], primaryKeys = [js ''id''], sources = []\<rparr>),
      (js ''TGT'', \<lparr>tbl_id = js ''fdp-TGT'', tbl_layer = FDP, targetName = js ''TGT'',
         columns = [js ''id'', js ''created_at'', js ''updated_at'', js ''val'', js ''key''], primaryKeys = [js ''id''],
         sources = [\<lparr>src_name = js ''TGT'',
            mappings = [\<lparr>map_sourceField = js ''key'', map_targetField = js ''val'',
                         map_transformation = []\<rparr>]\<rparr>]\<rparr>)]"
  by code_simp

text \<open>The fragment \<open>TGT\<close> is foundational; a row that names \<open>TGT\<close> as source and target
  with the layer origination adds two columns and leaves layer and id alone.\<close>

theorem fragment_identity_kept_witness:
  "(js ''TGT'', \<lparr>tbl_id = js ''fdp-TGT'', tbl_layer = FDP, targetName = js ''TGT'',
         columns = [js ''id'', js ''created_at'', js ''updated_at''], primaryKeys = [js ''id''], sources = []\<rparr>)
     \<in> set (seed_tables [\<lparr>frag_name = js ''SRC'', frag_layer = ODP, frag_fields = []\<rparr>,
                \<lparr>frag_name = js ''TGT'', frag_layer = FDP, frag_fields = []\<rparr>]) \<and>
   (\<exists>t'. (js ''TGT'', t') \<in> set (generateTables
        [\<lparr>sourceTable = js ''TGT'', sourceField = js ''key'', targetTable = js ''TGT'',
          targetField = js ''val'', dataType = js ''STRING'', transformation = None,
          sourceLayer = Some ODP, targetLayer = Some ODP\<rparr>]
        [\<lparr>frag_name = js ''SRC'', frag_layer = ODP, frag_fields = []\<rparr>,
         \<lparr>frag_name = js ''TGT'', frag_layer = FDP, frag_fields = []\<rparr>]) \<and>
      tbl_layer t' = FDP \<and> tbl_id t' = js ''fdp-TGT'' \<and>
      prefix [js ''id'', js ''created_at'', js ''updated_at''] (columns t') \<and>
      columns t' = [js ''id'', js ''created_at'', js ''updated_at'', js ''val'', js ''key''])"
proof -
  let ?t = "\<lparr>tbl_id = js ''fdp-TGT'', tbl_layer = FDP, targetName = js ''TGT'',
         columns = [js ''id'', js ''created_at'', js ''updated_at''], primaryKeys = [js ''id''], sources = []\<rparr>"
  let ?ets = "[\<lparr>frag_name = js ''SRC'', frag_layer = ODP, frag_fields = []\<rparr>,
                \<lparr>frag_name = js ''TGT'', frag_layer = FDP, frag_fields = []\<rparr>]"
  let ?rs = "[\<lparr>sourceTable = js ''TGT'', sourceField = js ''key'', targetTable = js ''TGT'',
          targetField = js ''val'', dataType = js ''STRING'', transformation = None,
          sourceLayer = Some ODP, targetLayer = Some ODP\<rparr>]"
  have m: "(js ''TGT'', ?t) \<in> set (seed_tables ?ets)"
    by (simp add: eval_seed_two_headers)
  from fragment_identity_kept [OF m, of ?rs] obtain t'
    where t': "(js ''TGT'', t') \<in> set (generateTables ?rs ?ets)" "tbl_layer t' = tbl_layer ?t"
      "tbl_id t' = tbl_id ?t" "prefix (columns ?t) (columns t')" by blast
  from t'(1) have "columns t' = [js ''id'', js ''created_at'', js ''updated_at'', js ''val'', js ''key'']"
    by (auto simp: eval_tables_two_headers)
  with m t' show ?thesis by auto
qed

section \<open>Field mappings of a source reference\<close>

lemma add_field_mapping_distinct:
  "targets_distinct s \<Longrightarrow> targets_distinct (add_field_mapping r s)"
  by (auto simp: targets_distinct_def add_field_mapping_def)

lemma add_mapping_distinct:
  assumes "\<forall>s\<in>set (sources t). targets_distinct s"
  shows "\<forall>s\<in>set (sources (add_mapping r t)). targets_distinct s"
proof (cases "findIndex (\<lambda>s. src_name s = sourceTable r) (sources t)")
  case None
  have "targets_distinct (add_field_mapping r \<lparr>src_name = sourceTable r, mappings = []\<rparr>)"
    by (rule add_field_mapping_distinct) (simp add: targets_distinct_def)
  with assms None show ?thesis by (auto simp: add_mapping_def)
next
  case (Some i)
  then have "i < length (sources t)" by (auto dest: findIndex_Some)
  then have "targets_distinct (add_field_mapping r (sources t ! i))"
    using assms by (auto intro: add_field_mapping_distinct)
  moreover have "set ((sources t)[i := add_field_mapping r (sources t ! i)])
      \<subseteq> insert (add_field_mapping r (sources t ! i)) (set (sources t))"
    by (rule set_update_subset_insert)
  ultimately show ?thesis
    using assms Some by (auto simp: add_mapping_def)
qed

lemma table_ok_add_column: "table_ok t \<Longrightarrow> table_ok (add_column f t)"
  by (simp add: table_ok_def add_column_def)

lemma table_ok_add_mapping: "table_ok t \<Longrightarrow> table_ok (add_mapping r t)"
  unfolding table_ok_def by (rule add_mapping_distinct)

lemma table_ok_new: "table_ok (new_table n l cs)"
  by (simp add: table_ok_def new_table_def)

lemma ok_map_set: "all_ok m \<Longrightarrow> table_ok v \<Longrightarrow> all_ok (map_set m k v)"
  unfolding all_ok_def by (induction m) auto

lemma ok_map_modify:
  assumes "all_ok m" and "\<And>t. table_ok t \<Longrightarrow> table_ok (f t)"
  shows "all_ok (map_modify m k f)"
  using assms unfolding all_ok_def map_modify_def
  by (induction m) (simp_all add: case_prod_beta)

lemma ok_ensure: "all_ok m \<Longrightarrow> all_ok (ensureTableExists m n l)"
  by (simp add: ensureTableExists_def ok_map_set table_ok_new)

lemma ok_add_row:
  assumes "all_ok m"
  shows "all_ok (add_row m r)"
proof -
  let ?t1 = "ensureTableExists m (targetTable r) (layer_or_odp (targetLayer r))"
  let ?t2 = "map_modify ?t1 (targetTable r) (add_column (targetField r))"
  let ?t3 = "ensureTableExists ?t2 (sourceTable r) (layer_or_odp (sourceLayer r))"
  let ?t4 = "map_modify ?t3 (sourceTable r) (add_column (sourceField r))"
  have 1: "all_ok ?t1" using assms by (rule ok_ensure)
  have 2: "all_ok ?t2" using 1 by (rule ok_map_modify) (rule table_ok_add_column)
  have 3: "all_ok ?t3" using 2 by (rule ok_ensure)
  have 4: "all_ok ?t4" using 3 by (rule ok_map_modify) (rule table_ok_add_column)
  have "all_ok (map_modify ?t4 (targetTable r) (add_mapping r))"
    using 4 by (rule ok_map_modify) (rule table_ok_add_mapping)
  then show ?thesis by (simp add: add_row_def Let_def)
qed

lemma ok_rows: "all_ok m \<Longrightarrow> all_ok (foldl add_row m rs)"
  by (induction rs arbitrary: m) (simp_all add: ok_add_row)

lemma ok_seed_from:
  "all_ok m \<Longrightarrow>
   all_ok (foldl (\<lambda>tbls tbl. map_set tbls (frag_name tbl)
      (new_table (frag_name tbl) (frag_layer tbl) (default_columns @ frag_fields tbl))) m ets)"
  by (induction ets arbitrary: m) (simp_all add: ok_map_set table_ok_new)

lemma ok_generateTables: "all_ok (generateTables rs ets)"
  unfolding generateTables_def seed_tables_def
  by (rule ok_rows, rule ok_seed_from) (simp add: all_ok_def)

lemma mappings_of_src_of: "mappings_of m T S = src_mappings (src_of m T) S"
  by (simp add: mappings_of_def src_of_def src_mappings_def split: option.splits)

lemma findIndex_None: "findIndex P xs = None \<Longrightarrow> find P xs = None"
  by (induction xs) (auto split: if_splits)

lemma find_first_index: "findIndex P xs = Some i \<Longrightarrow> find P xs = Some (xs ! i)"
  by (induction xs arbitrary: i) (auto split: if_splits)

lemma find_update_first:
  "findIndex P xs = Some i \<Longrightarrow> P y \<Longrightarrow> find P (xs[i := y]) = Some y"
  by (induction xs arbitrary: i) (auto split: if_splits)

lemma find_update_other:
  "\<not> Q (xs ! i) \<Longrightarrow> \<not> Q y \<Longrightarrow> find Q (xs[i := y]) = find Q xs"
proof (induction xs arbitrary: i)
  case Nil
  then show ?case by simp
next
  case (Cons x xs)
  then show ?case by (cases i) auto
qed

lemma find_snoc:
  "find P (xs @ [y]) = (case find P xs of None \<Rightarrow> (if P y then Some y else None) | Some x \<Rightarrow> Some x)"
  by (induction xs) auto

lemma add_field_mapping_name: "src_name (add_field_mapping r s) = src_name s"
  by (simp add: add_field_mapping_def)

lemma add_field_mapping_mappings:
  "mappings (add_field_mapping r s) =
     (if targetField r \<in> map_targetField ` set (mappings s) then mappings s
      else mappings s @ [mapping_of_row r])"
  by (simp add: add_field_mapping_def mapping_of_row_def)

lemma add_mapping_src_mappings:
  "src_mappings (sources (add_mapping r t)) S =
     (if S = sourceTable r then
        (let ms = src_mappings (sources t) S in
         if targetField r \<in> map_targetField ` set ms then ms else ms @ [mapping_of_row r])
      else src_mappings (sources t) S)"
proof (cases "findIndex (\<lambda>s. src_name s = sourceTable r) (sources t)")
  case None
  from findIndex_None [OF None] have n: "find (\<lambda>s. src_name s = sourceTable r) (sources t) = None" .
  show ?thesis
  proof (cases "S = sourceTable r")
    case True
    with None n show ?thesis
      by (simp add: add_mapping_def src_mappings_def find_snoc add_field_mapping_name
          add_field_mapping_mappings)
  next
    case False
    with None show ?thesis
      by (simp add: add_mapping_def src_mappings_def find_snoc add_field_mapping_name
          split: option.splits)
  qed
next
  case (Some i)
  from findIndex_Some [OF Some]
  have i: "i < length (sources t)" "src_name (sources t ! i) = sourceTable r" by auto
  show ?thesis
  proof (cases "S = sourceTable r")
    case True
    have "find (\<lambda>s. src_name s = sourceTable r)
            ((sources t)[i := add_field_mapping r (sources t ! i)]) =
          Some (add_field_mapping r (sources t ! i))"
      using Some by (rule find_update_first) (simp add: add_field_mapping_name i)
    with True Some find_first_index [OF Some] show ?thesis
      by (simp add: add_mapping_def src_mappings_def add_field_mapping_mappings Let_def)
  next
    case False
    have "find (\<lambda>s. src_name s = S) ((sources t)[i := add_field_mapping r (sources t ! i)]) =
          find (\<lambda>s. src_name s = S) (sources t)"
      using False i by (intro find_update_other) (auto simp: add_field_mapping_name)
    with False Some show ?thesis
      by (simp add: add_mapping_def src_mappings_def)
  qed
qed

lemma map_of_ensure:
  "map_of (ensureTableExists m n l) x =
     (if map_of m n = None \<and> x = n then Some (new_table n l default_columns) else map_of m x)"
  by (auto simp: ensureTableExists_def map_has_def map_of_map_set)

lemma src_of_ensure: "src_of (ensureTableExists m n l) T = src_of m T"
  by (auto simp: src_of_def map_of_ensure new_table_def)

lemma src_of_modify_column: "src_of (map_modify m n (add_column f)) T = src_of m T"
  by (auto simp: src_of_def map_of_map_modify add_column_def split: option.splits)

lemma src_of_modify_mapping:
  "map_of m n = Some t \<Longrightarrow>
   src_of (map_modify m n (add_mapping r)) T =
     (if T = n then sources (add_mapping r t) else src_of m T)"
  by (auto simp: src_of_def map_of_map_modify)

lemma add_row_src_of:
  "\<exists>t. sources t = src_of tbls (targetTable r) \<and>
     (\<forall>T. src_of (add_row tbls r) T =
        (if T = targetTable r then sources (add_mapping r t) else src_of tbls T))"
proof -
  let ?t1 = "ensureTableExists tbls (targetTable r) (layer_or_odp (targetLayer r))"
  let ?t2 = "map_modify ?t1 (targetTable r) (add_column (targetField r))"
  let ?t3 = "ensureTableExists ?t2 (sourceTable r) (layer_or_odp (sourceLayer r))"
  let ?t4 = "map_modify ?t3 (sourceTable r) (add_column (sourceField r))"
  have "map_of ?t1 (targetTable r) \<noteq> None" by (auto simp: map_of_ensure)
  then have "map_of ?t2 (targetTable r) \<noteq> None" by (auto simp: map_of_map_modify)
  then have "map_of ?t3 (targetTable r) \<noteq> None" by (auto simp: map_of_ensure)
  then have "map_of ?t4 (targetTable r) \<noteq> None" by (auto simp: map_of_map_modify)
  then obtain t where t: "map_of ?t4 (targetTable r) = Some t" by auto
  have s4: "src_of ?t4 T = src_of tbls T" for T
    by (simp add: src_of_ensure src_of_modify_column)
  from t s4 [of "targetTable r"] have "sources t = src_of tbls (targetTable r)"
    by (simp add: src_of_def)
  moreover have "src_of (add_row tbls r) T =
        (if T = targetTable r then sources (add_mapping r t) else src_of tbls T)" for T
    using src_of_modify_mapping [OF t, of r T] s4 [of T] by (simp add: add_row_def Let_def)
  ultimately show ?thesis by blast
qed

lemma add_row_mappings_of:
  "mappings_of (add_row tbls r) T S =
     (if T = targetTable r \<and> S = sourceTable r then
        (let ms = mappings_of tbls T S in
         if targetField r \<in> map_targetField ` set ms then ms else ms @ [mapping_of_row r])
      else mappings_of tbls T S)"
proof -
  from add_row_src_of [where tbls = tbls and r = r] obtain t
    where t: "sources t = src_of tbls (targetTable r)"
      and a: "\<And>T. src_of (add_row tbls r) T =
        (if T = targetTable r then sources (add_mapping r t) else src_of tbls T)" by blast
  show ?thesis
    by (simp add: mappings_of_src_of a add_mapping_src_mappings t)
qed

lemma first_per_target_snoc:
  "first_per_target (xs @ [r]) =
     (if targetField r \<in> targetField ` set (first_per_target xs) then first_per_target xs
      else first_per_target xs @ [r])"
  by (simp add: first_per_target_def)

lemma seed_no_sources_from:
  "list_all (\<lambda>e. sources (snd e) = []) m \<Longrightarrow>
   list_all (\<lambda>e. sources (snd e) = [])
     (foldl (\<lambda>tbls tbl. map_set tbls (frag_name tbl)
        (new_table (frag_name tbl) (frag_layer tbl) (default_columns @ frag_fields tbl))) m ets)"
proof (induction ets arbitrary: m)
  case Nil
  then show ?case by simp
next
  case (Cons e ets)
  have "list_all (\<lambda>e. sources (snd e) = []) (map_set m k (new_table n l cs))" for k n l cs
    using Cons.prems by (induction m) (auto simp: new_table_def)
  then show ?case by (simp add: Cons.IH)
qed

lemma src_of_seed: "src_of (seed_tables ets) T = []"
proof -
  have "list_all (\<lambda>e. sources (snd e) = []) (seed_tables ets)"
    unfolding seed_tables_def by (rule seed_no_sources_from) simp
  then show ?thesis
    by (auto simp: src_of_def list_all_iff split: option.splits dest!: map_of_SomeD)
qed

lemma mappings_of_generateTables:
  "mappings_of (generateTables rs ets) T S =
     map mapping_of_row
       (first_per_target (filter (\<lambda>r. targetTable r = T \<and> sourceTable r = S) rs))"
proof (induction rs rule: rev_induct)
  case Nil
  show ?case
    by (simp add: generateTables_def mappings_of_src_of src_of_seed src_mappings_def
        first_per_target_def)
next
  case (snoc r rs)
  have g: "generateTables (rs @ [r]) ets = add_row (generateTables rs ets) r"
    by (simp add: generateTables_def)
  have img: "map_targetField ` mapping_of_row ` A = targetField ` A" for A
    by (auto simp: mapping_of_row_def image_iff)
  show ?case
  proof (cases "targetTable r = T \<and> sourceTable r = S")
    case True
    then show ?thesis
      by (simp add: g add_row_mappings_of snoc.IH first_per_target_snoc img Let_def)
  next
    case False
    then have "filter (\<lambda>r. targetTable r = T \<and> sourceTable r = S) (rs @ [r]) =
               filter (\<lambda>r. targetTable r = T \<and> sourceTable r = S) rs" by auto
    moreover from False have "mappings_of (add_row (generateTables rs ets) r) T S =
        mappings_of (generateTables rs ets) T S"
      by (auto simp: add_row_mappings_of)
    ultimately show ?thesis by (simp add: g snoc.IH)
  qed
qed

text \<open>
  Claim C7. For every list of mapping rows and every list of fragments, in every
  source reference of every table that the builder produces no two field mappings
  share a target field. The mappings of the source \<open>S\<close> of the table \<open>T\<close> are those of
  the rows from \<open>S\<close> to \<open>T\<close>, in input order, where of the rows with the same target
  field only the first is kept; the builder is total, so a later row is dropped
  without an error.
\<close>

theorem mapping_targets_distinct:
  "(\<forall>e\<in>set (generateTables rs ets). \<forall>s\<in>set (sources (snd e)).
      distinct (map map_targetField (mappings s))) \<and>
   mappings_of (generateTables rs ets) T S =
     map mapping_of_row
       (first_per_target (filter (\<lambda>r. targetTable r = T \<and> sourceTable r = S) rs))"
proof -
  have "all_ok (generateTables rs ets)" by (rule ok_generateTables)
  then have "\<forall>e\<in>set (generateTables rs ets). \<forall>s\<in>set (sources (snd e)).
      distinct (map map_targetField (mappings s))"
    by (simp add: all_ok_def list_all_iff table_ok_def targets_distinct_def)
  then show ?thesis by (simp add: mappings_of_generateTables)
qed

lemma eval_two_rows_same_target:
  "generateTables
     [\<lparr>sourceTable = js ''S'', sourceField = js ''a'', targetTable = js ''T'', targetField = js ''x'',
       dataType = js ''STRING'', transformation = None, sourceLayer = Some ODP,
       targetLayer = Some ODP\<rparr>,
      \<lparr>sourceTable = js ''S'', sourceField = js ''b'', targetTable = js ''T'', targetField = js ''x'',
       dataType = js ''STRING'', transformation = None, sourceLayer = Some ODP,
       targetLayer = Some ODP\<rparr>] [] =
     [(js ''T'', \<lparr>tbl_id = js ''odp-T'', tbl_layer = ODP, targetName = js ''T'',
         columns = [js ''id'', js ''created_at'', js ''updated_at'', js ''x''], primaryKeys = [js ''id''],
         sources = [\<lparr>src_name = js ''S'',
            mappings = [\<lparr>map_sourceField = js ''a'', map_targetField = js ''x'',
                         map_transformation = []\<rparr>]\<rparr>]\<rparr>),
      (js ''S'', \<lparr>tbl_id = js ''odp-S'', tbl_layer = ODP, targetName = js ''S'',
         columns = [js ''id'', js ''created_at'', js ''updated_at'', js ''a'', js ''b''], primaryKeys = [js ''id''],
         sources = []\<rparr>)]"
  by code_simp

text \<open>Two rows from \<open>S\<close> to the field \<open>x\<close> of \<open>T\<close>: the mapping from \<open>a\<close>, the first, is kept.\<close>

theorem mapping_targets_distinct_witness:
  "mappings_of (generateTables
     [\<lparr>sourceTable = js ''S'', sourceField = js ''a'', targetTable = js ''T'', targetField = js ''x'',
       dataType = js ''STRING'', transformation = None, sourceLayer = Some ODP,
       targetLayer = Some ODP\<rparr>,
      \<lparr>sourceTable = js ''S'', sourceField = js ''b'', targetTable = js ''T'', targetField = js ''x'',
       dataType = js ''STRING'', transformation = None, sourceLayer = Some ODP,
       targetLayer = Some ODP\<rparr>] []) (js ''T'') (js ''S'') =
     [\<lparr>map_sourceField = js ''a'', map_targetField = js ''x'', map_transformation = []\<rparr>] \<and>
   distinct (map map_targetField
     [\<lparr>map_sourceField = js ''a'', map_targetField = js ''x'', map_transformation = []\<rparr>])"
proof -
  let ?rs = "[\<lparr>sourceTable = js ''S'', sourceField = js ''a'', targetTable = js ''T'', targetField = js ''x'',
       dataType = js ''STRING'', transformation = None, sourceLayer = Some ODP,
       targetLayer = Some ODP\<rparr>,
      \<lparr>sourceTable = js ''S'', sourceField = js ''b'', targetTable = js ''T'', targetField = js ''x'',
       dataType = js ''STRING'', transformation = None, sourceLayer = Some ODP,
       targetLayer = Some ODP\<rparr>]"
  let ?m = "\<lparr>map_sourceField = js ''a'', map_targetField = js ''x'', map_transformation = []\<rparr>"
  from mapping_targets_distinct [of ?rs "[]" "js ''T''" "js ''S''"]
  have a: "\<forall>e\<in>set (generateTables ?rs []). \<forall>s\<in>set (sources (snd e)).
      distinct (map map_targetField (mappings s))"
    and b: "mappings_of (generateTables ?rs []) (js ''T'') (js ''S'') =
     map mapping_of_row
       (first_per_target (filter (\<lambda>r. targetTable r = js ''T'' \<and> sourceTable r = js ''S'') ?rs))"
    by blast+
  have "mappings_of (generateTables ?rs []) (js ''T'') (js ''S'') = [?m]"
    by (simp add: b first_per_target_def mapping_of_row_def)
  moreover from a have "distinct (map map_targetField (mappings \<lparr>src_name = js ''S'', mappings = [?m]\<rparr>))"
    by (simp add: eval_two_rows_same_target)
  ultimately show ?thesis by simp
qed

section \<open>Loose field distribution (rule 4)\<close>

lemma potentialFields_noise_free: "potentialFields line = noise_free_tokens line"
  by (auto simp: potentialFields_def noise_free_tokens_def intro: filter_cong)

lemma noise_free_token:
  "w \<in> set (noise_free_tokens line) \<Longrightarrow> length w > 1 \<and> filter is_word w = w"
  by (auto simp: noise_free_tokens_def list_all_iff)

lemma add_word_token:
  "w \<in> set (noise_free_tokens line) \<Longrightarrow> add_word e i w = new_field_unless_reserved e i w"
  by (auto simp: add_word_def new_field_unless_reserved_def new_field_def Let_def
      dest!: noise_free_token)

lemma zip_as_indices:
  "length xs \<le> length ys \<Longrightarrow> zip xs ys = map (\<lambda>i. (xs ! i, ys ! i)) [0..<length xs]"
  by (rule nth_equalityI) auto

lemma index_loop_as_zip:
  assumes "length xs \<le> length ys"
  shows "foldl (\<lambda>e i. f e (xs ! i) (ys ! i)) e [0..<length xs] =
         foldl (\<lambda>e (i, w). f e i w) e (zip xs ys)"
  by (simp add: zip_as_indices [OF assms] foldl_map)

lemma loose_fields_amended: "loose_fields ets active line = amended_loose_fields ets active line"
proof -
  let ?toks = "noise_free_tokens line"
  have tok: "\<And>e i w. w \<in> set ?toks \<Longrightarrow> add_word e i w = new_field_unless_reserved e i w"
    by (rule add_word_token)
  have last_case:
    "foldl (\<lambda>e w. add_word e (last active) w) ets ?toks =
     foldl (\<lambda>e w. new_field_unless_reserved e (last active) w) ets ?toks"
    by (rule foldl_cong) (simp_all add: tok)
  have pos_case:
    "foldl (\<lambda>e i. add_word e (active ! i) (?toks ! i)) ets [0..<length active] =
     foldl (\<lambda>e (i, w). new_field_unless_reserved e i w) ets (zip active ?toks)"
    if le: "length active \<le> length ?toks"
  proof -
    have "foldl (\<lambda>e i. add_word e (active ! i) (?toks ! i)) ets [0..<length active] =
          foldl (\<lambda>e (i, w). add_word e i w) ets (zip active ?toks)"
      using le by (rule index_loop_as_zip)
    also have "\<dots> = foldl (\<lambda>e (i, w). new_field_unless_reserved e i w) ets (zip active ?toks)"
      by (rule foldl_cong) (auto simp: tok dest: set_zip_rightD)
    finally show ?thesis .
  qed
  show ?thesis
    unfolding loose_fields_def amended_loose_fields_def potentialFields_noise_free Let_def
    using last_case pos_case by auto
qed

text \<open>The white space of \<open>\s\<close> and \<open>trim\<close> is more than the ASCII one: a no-break space
  (U+00A0) separates two fields, and an ideographic space (U+3000) after a layer token
  makes a standard header.\<close>

lemma eval_unicode_space:
  "split_fields (js ''ab'' @ [0xA0] @ js ''cd'') = [js ''ab'', js ''cd'']"
  "trim ([0xFEFF, 0x2003] @ js ''ab'' @ [0x2028]) = js ''ab''"
  "standardMatch (js ''ODP'' @ [0x3000] @ js ''T -> z'') = Some (js ''ODP'', js ''T'')"
  "loose_fields [\<lparr>frag_name = js ''A'', frag_layer = ODP, frag_fields = []\<rparr>] [0]
     (js ''ab'' @ [0xA0] @ js ''cd'') =
   [\<lparr>frag_name = js ''A'', frag_layer = ODP, frag_fields = [js ''ab'', js ''cd'']\<rparr>]"
  by code_simp+

text \<open>
  Claim C3, as amended. A line that reaches rule 4 (no dot-notation header, no standard
  header and no arrow matches, and the active-table list is not empty) is split on
  white space and pipes, and the tokens of at most one character or with a character
  that is no word character are discarded. With at least two active tables and at
  least as many remaining tokens as active tables, reserved words counted, token \<open>i\<close>
  becomes a new field of active table \<open>i\<close> for every position of the active-table
  list, unless it is a reserved word (which holds its position all the same) or a
  field of that table already; the tokens past the last position are dropped.
  Otherwise every remaining token that is no reserved word and no field of the last
  active table yet is appended to the last active table.
\<close>

theorem rule4_distribution:
  assumes "dotNotationMatches line = []" and "standardMatch line = None"
    and "mappingMatch line = None" and "activeTables st \<noteq> []"
  shows "process_line st line =
           st\<lparr>explicitTables := amended_loose_fields (explicitTables st) (activeTables st) line\<rparr>"
  using assms by (simp add: process_line_def loose_fields_amended)

lemma eval_rule4_example:
  "dotNotationMatches (js ''ID name addr'') = []" "standardMatch (js ''ID name addr'') = None"
  "mappingMatch (js ''ID name addr'') = None"
  "amended_loose_fields
     [\<lparr>frag_name = js ''A'', frag_layer = ODP, frag_fields = []\<rparr>,
      \<lparr>frag_name = js ''B'', frag_layer = FDP, frag_fields = []\<rparr>] [0, Suc 0] (js ''ID name addr'') =
     [\<lparr>frag_name = js ''A'', frag_layer = ODP, frag_fields = []\<rparr>,
      \<lparr>frag_name = js ''B'', frag_layer = FDP, frag_fields = [js ''name'']\<rparr>]"
  "loose_fields
     [\<lparr>frag_name = js ''A'', frag_layer = ODP, frag_fields = []\<rparr>,
      \<lparr>frag_name = js ''B'', frag_layer = FDP, frag_fields = []\<rparr>] [0, Suc 0] (js ''ID name addr'') =
     [\<lparr>frag_name = js ''A'', frag_layer = ODP, frag_fields = []\<rparr>,
      \<lparr>frag_name = js ''B'', frag_layer = FDP, frag_fields = [js ''name'']\<rparr>]"
  "spec_loose_fields
     [\<lparr>frag_name = js ''A'', frag_layer = ODP, frag_fields = []\<rparr>,
      \<lparr>frag_name = js ''B'', frag_layer = FDP, frag_fields = []\<rparr>] [0, Suc 0] (js ''ID name addr'') =
     [\<lparr>frag_name = js ''A'', frag_layer = ODP, frag_fields = [js ''name'']\<rparr>,
      \<lparr>frag_name = js ''B'', frag_layer = FDP, frag_fields = [js ''addr'']\<rparr>]"
  by code_simp+

text \<open>Two active tables \<open>A\<close> and \<open>B\<close> and the line \<open>ID name addr\<close>: the reserved
  word holds position 0, \<open>name\<close> goes to \<open>B\<close>, and \<open>addr\<close> is dropped.\<close>

theorem rule4_distribution_witness:
  "process_line
     \<lparr>rows = [],
      explicitTables = [\<lparr>frag_name = js ''A'', frag_layer = ODP, frag_fields = []\<rparr>,
                        \<lparr>frag_name = js ''B'', frag_layer = FDP, frag_fields = []\<rparr>],
      activeTables = [0, Suc 0]\<rparr> (js ''ID name addr'') =
   \<lparr>rows = [],
    explicitTables = [\<lparr>frag_name = js ''A'', frag_layer = ODP, frag_fields = []\<rparr>,
                      \<lparr>frag_name = js ''B'', frag_layer = FDP, frag_fields = [js ''name'']\<rparr>],
    activeTables = [0, Suc 0]\<rparr>"
proof -
  let ?st = "\<lparr>rows = [],
      explicitTables = [\<lparr>frag_name = js ''A'', frag_layer = ODP, frag_fields = []\<rparr>,
                        \<lparr>frag_name = js ''B'', frag_layer = FDP, frag_fields = []\<rparr>],
      activeTables = [0, Suc 0]\<rparr>"
  have a: "activeTables ?st \<noteq> []" by simp
  from rule4_distribution [OF eval_rule4_example(1-3) a]
  show ?thesis by (simp add: eval_rule4_example(4))
qed

text \<open>On that line the rule as claimed gives \<open>name\<close> to \<open>A\<close> and \<open>addr\<close> to \<open>B\<close>, which
  is not what the code does.\<close>

theorem reserved_word_keeps_position:
  "loose_fields
     [\<lparr>frag_name = js ''A'', frag_layer = ODP, frag_fields = []\<rparr>,
      \<lparr>frag_name = js ''B'', frag_layer = FDP, frag_fields = []\<rparr>] [0, Suc 0] (js ''ID name addr'') \<noteq>
   spec_loose_fields
     [\<lparr>frag_name = js ''A'', frag_layer = ODP, frag_fields = []\<rparr>,
      \<lparr>frag_name = js ''B'', frag_layer = FDP, frag_fields = []\<rparr>] [0, Suc 0] (js ''ID name addr'')"
  by (simp add: eval_rule4_example(5,6))

section \<open>Input without word characters\<close>

lemma is_word_upper: "is_word (upper_unit c) \<Longrightarrow> is_word c"
  by (auto simp: upper_unit_def is_word_def split: if_splits)

lemma match_token_no_word:
  assumes "\<forall>t\<in>set ts. t \<noteq> [] \<and> is_word (hd t)" and "s = [] \<or> \<not> is_word (hd s)"
  shows "match_token ts s = None"
  using assms
proof (induction ts)
  case Nil
  then show ?case by simp
next
  case (Cons t ts)
  from Cons.prems obtain x xs where t: "t = x # xs" "is_word x" by (cases t) auto
  have "toUpperCase (take (length t) s) \<noteq> t"
  proof (cases s)
    case Nil
    with t show ?thesis by (simp add: toUpperCase_def)
  next
    case (Cons c cs)
    with Cons.prems(2) have "\<not> is_word c" by simp
    then have "upper_unit c \<noteq> x" using t(2) is_word_upper by blast
    with t Cons show ?thesis by (simp add: toUpperCase_def)
  qed
  with Cons show ?case by simp
qed

lemma layer_tokens_words: "\<forall>t\<in>set layer_tokens. t \<noteq> [] \<and> is_word (hd t)"
  by (simp add: layer_tokens_def is_word_def js_def)

lemma dot_here_no_word: "s = [] \<or> \<not> is_word (hd s) \<Longrightarrow> dot_here s = None"
  by (simp add: dot_here_def match_token_no_word [OF layer_tokens_words])

lemma standardMatch_no_word: "s = [] \<or> \<not> is_word (hd s) \<Longrightarrow> standardMatch s = None"
  by (simp add: standardMatch_def match_token_no_word [OF layer_tokens_words])

lemma dot_scan_no_word: "\<forall>c\<in>set s. \<not> is_word c \<Longrightarrow> dot_scan prev k s = []"
proof (induction prev k s rule: dot_scan.induct)
  case (1 prev skip)
  then show ?case by simp
next
  case (2 prev k c cs)
  then show ?case by simp
next
  case (3 prev c cs)
  then have "dot_here (c # cs) = None" by (intro dot_here_no_word) simp
  with 3 show ?case by simp
qed

lemma mappingMatch_no_word: "\<forall>c\<in>set s. \<not> is_word c \<Longrightarrow> mappingMatch s = None"
proof (induction s)
  case Nil
  then show ?case by simp
next
  case (Cons c cs)
  then have "arrow_here (c # cs) = None" by (simp add: arrow_here_def arrow_side_def)
  with Cons show ?case by simp
qed

lemma set_trim: "set (trim s) \<subseteq> set s"
  by (auto simp: trim_def dest!: set_dropWhileD)

lemma split_on_pieces: "p \<in> set (split_on sep s) \<Longrightarrow> set p \<subseteq> set s"
proof (induction s arbitrary: p)
  case Nil
  then show ?case by simp
next
  case (Cons c cs)
  show ?case
  proof (cases "split_on sep cs")
    case Nil
    with Cons.prems show ?thesis by (auto split: if_splits)
  next
    case (Cons w ws)
    have w: "set w \<subseteq> set cs" and ws: "\<And>q. q \<in> set ws \<Longrightarrow> set q \<subseteq> set cs"
      using Cons.IH Cons by simp_all
    from Cons.prems Cons have "p = [] \<or> p = w \<or> p = c # w \<or> p \<in> set ws"
      by (auto split: if_splits)
    with w ws show ?thesis by auto
  qed
qed

lemma split_on_absent: "sep \<notin> set s \<Longrightarrow> split_on sep s = [s]"
  by (induction s) auto

lemma transcript_line_chars: "l \<in> set (transcript_lines content) \<Longrightarrow> set l \<subseteq> set content"
  using set_trim split_on_pieces by (fastforce simp: transcript_lines_def)

lemma process_line_no_word:
  assumes "\<forall>c\<in>set l. \<not> is_word c" and "activeTables st = []"
  shows "process_line st l = st"
proof -
  have "dotNotationMatches l = []"
    using assms(1) by (simp add: dotNotationMatches_def dot_scan_no_word)
  moreover have "standardMatch l = None"
    using assms(1) by (intro standardMatch_no_word) (cases l, auto)
  moreover have "mappingMatch l = None" using assms(1) by (rule mappingMatch_no_word)
  ultimately show ?thesis using assms(2) by (simp add: process_line_def)
qed

lemma lines_no_word:
  "\<forall>l\<in>set ls. \<forall>c\<in>set l. \<not> is_word c \<Longrightarrow> activeTables st = [] \<Longrightarrow>
   foldl process_line st ls = st"
  by (induction ls arbitrary: st) (simp_all add: process_line_no_word)

lemma parse_no_word:
  assumes "\<forall>c\<in>set content. \<not> is_word c"
  shows "parseMarkdownFormat content = ([], [])"
proof -
  have "\<forall>l\<in>set (transcript_lines content). \<forall>c\<in>set l. \<not> is_word c"
    using assms transcript_line_chars by blast
  then have "parse_state content = init_state"
    unfolding parse_state_def by (rule lines_no_word) (simp add: init_state_def)
  then show ?thesis by (simp add: parseMarkdownFormat_def init_state_def)
qed

lemma csv_row_no_comma: "cu CHR '','' \<notin> set l \<Longrightarrow> csv_row l = None"
proof -
  assume "cu CHR '','' \<notin> set l"
  with set_trim [of l] have "cu CHR '','' \<notin> set (trim l)" by blast
  then have "split_on (cu CHR '','') (trim l) = [trim l]" by (rule split_on_absent)
  then show ?thesis by (simp add: csv_row_def Let_def)
qed

lemma parseCSV_no_comma:
  assumes "cu CHR '','' \<notin> set content"
  shows "parseCSV content = []"
proof -
  have "\<forall>l\<in>set (split_on 0x0A (trim content)). csv_row l = None"
  proof
    fix l assume "l \<in> set (split_on 0x0A (trim content))"
    then have "set l \<subseteq> set content" using split_on_pieces set_trim by blast
    with assms show "csv_row l = None" by (intro csv_row_no_comma) blast
  qed
  then show ?thesis by (simp add: parseCSV_def List.map_filter_def)
qed

lemma eval_analyze_empty: "analyze [] = Inl NoValidMappingData"
  by code_simp

text \<open>
  Claim C5, as amended. \<open>analyze\<close> raises the unrecognized-input error if and only if the
  extraction produced no mapping row and no table fragment, and whenever it produced
  a row or a fragment \<open>analyze\<close> returns a result. In particular it raises the error
  for the empty string and for every input that holds no letter, no digit, no
  underscore and no comma, white space and every other punctuation mark allowed.
\<close>

theorem unrecognized_input:
  "(analyze content = Inl NoValidMappingData \<longleftrightarrow> extract_phase content = ([], [])) \<and>
   (extract_phase content \<noteq> ([], []) \<longrightarrow> (\<exists>res. analyze content = Inr res)) \<and>
   analyze [] = Inl NoValidMappingData \<and>
   ((\<forall>c\<in>set content. \<not> is_word c \<and> c \<noteq> cu CHR '','') \<longrightarrow>
      analyze content = Inl NoValidMappingData)"
proof -
  obtain rs ets where e: "extract_phase content = (rs, ets)" by (cases "extract_phase content")
  have iff: "analyze content = Inl NoValidMappingData \<longleftrightarrow> extract_phase content = ([], [])"
    by (simp add: analyze_def e)
  have ret: "extract_phase content \<noteq> ([], []) \<longrightarrow> (\<exists>res. analyze content = Inr res)"
    by (auto simp: analyze_def e)
  have none: "analyze content = Inl NoValidMappingData"
    if "\<forall>c\<in>set content. \<not> is_word c \<and> c \<noteq> cu CHR '',''"
  proof -
    from that have "\<forall>c\<in>set content. \<not> is_word c" and "cu CHR '','' \<notin> set content"
      by blast+
    then have "parseMarkdownFormat content = ([], [])" "parseCSV content = []"
      by (simp_all add: parse_no_word parseCSV_no_comma)
    then have "extract_phase content = ([], [])" by (simp add: extract_phase_def)
    with iff show ?thesis by simp
  qed
  from iff ret none eval_analyze_empty show ?thesis by blast
qed

lemma eval_punctuation:
  "analyze (js ''!?; ->'') = Inl NoValidMappingData"
  "extract_phase (js ''a -> b'') \<noteq> ([], [])"
  by code_simp+

text \<open>An input of punctuation and white space that holds the arrow token raises the
  error; an arrow line between two words is extracted as a row and gives a result.\<close>

theorem unrecognized_input_witness:
  "list_all (\<lambda>c. \<not> is_word c \<and> c \<noteq> cu CHR '','') (js ''!?; ->'') \<and>
   analyze (js ''!?; ->'') = Inl NoValidMappingData \<and>
   extract_phase (js ''!?; ->'') = ([], []) \<and>
   extract_phase (js ''a -> b'') \<noteq> ([], []) \<and> (\<exists>res. analyze (js ''a -> b'') = Inr res)"
proof -
  have p: "\<forall>c\<in>set (js ''!?; ->''). \<not> is_word c \<and> c \<noteq> cu CHR '',''"
    by (simp add: is_word_def js_def)
  from unrecognized_input [of "js ''!?; ->''"] p
  have a: "analyze (js ''!?; ->'') = Inl NoValidMappingData" by blast
  with unrecognized_input [of "js ''!?; ->''"] have b: "extract_phase (js ''!?; ->'') = ([], [])" by blast
  from unrecognized_input [of "js ''a -> b''"] eval_punctuation(2)
  have c: "\<exists>res. analyze (js ''a -> b'') = Inr res" by blast
  from p a b c eval_punctuation(2) show ?thesis by (simp add: list_all_iff)
qed

text \<open>Three commas are punctuation only, yet in CSV mode they are a line of four
  empty values, which is a row: \<open>analyze\<close> does not raise the error.\<close>

theorem commas_are_a_row:
  "list_all (\<lambda>c. c = cu CHR '','') (js '',,,'') \<and> analyze (js '',,,'') \<noteq> Inl NoValidMappingData"
proof -
  have "fst (extract_phase (js '',,,'')) \<noteq> []" by code_simp
  then have "analyze (js '',,,'') \<noteq> Inl NoValidMappingData"
    by (cases "extract_phase (js '',,,'')") (auto simp: analyze_def)
  then show ?thesis by (simp add: js_def)
qed

section \<open>Tables that only rows name\<close>



































end
